theory Spec2Isabelle
  imports Complex_Main "HOL-Library.Word" "HOL-Library.Signed_Division" "HOL-Library.Multiset"
begin

section \<open>Edge-aware graph diffusion on RGB rasters: serial and MPI+OpenMP engines\<close>

text \<open>
  The development embeds \<^verbatim>\<open>src/hybrid/graph_denoise_rgb.c\<close> (the distributed engine) and
  \<^verbatim>\<open>src/serial/graph_denoise_rgb.c\<close> (the single-process engine).

  Conventions of the embedding:
  \<^item> C \<^verbatim>\<open>int\<close> values are HOL integers; \<^verbatim>\<open>/\<close> and \<^verbatim>\<open>%\<close> truncate towards zero
    (\<open>sdiv\<close>, \<open>smod\<close>). Wrap-around of the 32-bit \<^verbatim>\<open>int\<close> is not represented: the rows,
    offsets and counts computed for an image are bounded by its byte count
    \<open>width * height * 3\<close>, which the program itself holds in an \<^verbatim>\<open>int\<close>.
  \<^item> \<^verbatim>\<open>unsigned char\<close> is \<open>8 word\<close>; a pixel buffer is a list of bytes, read and written
    at \<open>nat i\<close> for a C offset \<open>i\<close>. The offsets of a sweep are shown to lie inside the buffer
    (\<open>idx_bounds\<close>, \<open>effective_cells_interior\<close>).
  \<^item> \<^verbatim>\<open>float\<close> values are the real numbers they denote and \<^verbatim>\<open>expf\<close> is \<open>exp\<close>: the rounding
    of binary32 arithmetic is not represented. The statements about the per-pixel update
    below concern values at which the binary32 computation is exact or has a wide margin.
  \<^item> The ranks of an MPI group are a list of per-rank buffers; a collective is a function
    from the contributions of all ranks to the new buffer of each.
\<close>

subsection \<open>Data model\<close>

type_synonym byte = "8 word"

record PPMImage =
  width :: int
  height :: int
  data :: "byte list"

definition wf_image :: "PPMImage \<Rightarrow> bool" where
  "wf_image img \<longleftrightarrow>
     0 < width img \<and> 0 < height img \<and> int (length (data img)) = width img * height img * 3"

subsection \<open>Block decomposition (hybrid, lines 84--116)\<close>

definition rows_per_proc :: "int \<Rightarrow> int \<Rightarrow> int" where
  "rows_per_proc h sz = h sdiv sz"

definition extra :: "int \<Rightarrow> int \<Rightarrow> int" where
  "extra h sz = h smod sz"

text \<open>Lines 86--97: the block of the calling rank.\<close>

definition local_rows :: "int \<Rightarrow> int \<Rightarrow> int \<Rightarrow> int" where
  "local_rows h sz rank =
     (if rank < extra h sz then rows_per_proc h sz + 1 else rows_per_proc h sz)"

definition local_start :: "int \<Rightarrow> int \<Rightarrow> int \<Rightarrow> int" where
  "local_start h sz rank =
     (if rank < extra h sz then rank * local_rows h sz rank
      else rank * rows_per_proc h sz + extra h sz)"

definition local_end :: "int \<Rightarrow> int \<Rightarrow> int \<Rightarrow> int" where
  "local_end h sz rank = local_start h sz rank + local_rows h sz rank"

text \<open>Lines 100--102: the effective region skips the first and the last image row.\<close>

definition local_eff_start :: "int \<Rightarrow> int \<Rightarrow> int \<Rightarrow> int" where
  "local_eff_start h sz rank = (if local_start h sz rank < 1 then 1 else local_start h sz rank)"

definition local_eff_end :: "int \<Rightarrow> int \<Rightarrow> int \<Rightarrow> int" where
  "local_eff_end h sz rank =
     (if local_end h sz rank > h - 1 then h - 1 else local_end h sz rank)"

definition local_count :: "int \<Rightarrow> int \<Rightarrow> int \<Rightarrow> int \<Rightarrow> int" where
  "local_count w h sz rank = (local_eff_end h sz rank - local_eff_start h sz rank) * w * 3"

text \<open>Lines 107--116: every rank recomputes the table of all ranks.\<close>

definition proc_rows :: "int \<Rightarrow> int \<Rightarrow> int \<Rightarrow> int" where
  "proc_rows h sz i = (if i < extra h sz then rows_per_proc h sz + 1 else rows_per_proc h sz)"

definition proc_start :: "int \<Rightarrow> int \<Rightarrow> int \<Rightarrow> int" where
  "proc_start h sz i =
     (if i < extra h sz then i * (rows_per_proc h sz + 1) else i * rows_per_proc h sz + extra h sz)"

definition proc_end :: "int \<Rightarrow> int \<Rightarrow> int \<Rightarrow> int" where
  "proc_end h sz i = proc_start h sz i + proc_rows h sz i"

definition eff_start :: "int \<Rightarrow> int \<Rightarrow> int \<Rightarrow> int" where
  "eff_start h sz i = (if proc_start h sz i < 1 then 1 else proc_start h sz i)"

definition eff_end :: "int \<Rightarrow> int \<Rightarrow> int \<Rightarrow> int" where
  "eff_end h sz i = (if proc_end h sz i > h - 1 then h - 1 else proc_end h sz i)"

definition recvcounts :: "int \<Rightarrow> int \<Rightarrow> int \<Rightarrow> int list" where
  "recvcounts w h sz = map (\<lambda>i. (eff_end h sz i - eff_start h sz i) * w * 3) [0..sz - 1]"

definition displs :: "int \<Rightarrow> int \<Rightarrow> int \<Rightarrow> int list" where
  "displs w h sz = map (\<lambda>i. eff_start h sz i * w * 3) [0..sz - 1]"

subsection \<open>Pixel addressing (hybrid lines 129--135, serial lines 73--81)\<close>

definition idx :: "int \<Rightarrow> int \<Rightarrow> int \<Rightarrow> int \<Rightarrow> int" where
  "idx w y x c = (y * w + x) * 3 + c"

definition neighbor_indices :: "int \<Rightarrow> int \<Rightarrow> int \<Rightarrow> int \<Rightarrow> int list" where
  "neighbor_indices w y x c =
     [((y - 1) * w + x) * 3 + c, ((y + 1) * w + x) * 3 + c,
      (y * w + (x - 1)) * 3 + c, (y * w + (x + 1)) * 3 + c]"


subsection \<open>Per-pixel update (hybrid lines 130--148, serial lines 74--95)\<close>

definition sigma :: real where
  "sigma = 20"

definition threshold :: real where
  "threshold = 20"

definition gauss_weight :: "int \<Rightarrow> int \<Rightarrow> real" where
  "gauss_weight center nb =
     (let diff = real_of_int (nb - center) in exp (- (diff * diff) / (2 * sigma * sigma)))"

text \<open>The loop over the four neighbours, carrying \<open>(weight_sum, weighted_value)\<close>.\<close>

fun accumulate :: "int \<Rightarrow> int list \<Rightarrow> real \<times> real \<Rightarrow> real \<times> real" where
  "accumulate center [] acc = acc"
| "accumulate center (nb # nbs) (weight_sum, weighted_value) =
     (let weight = gauss_weight center nb
      in accumulate center nbs (weight_sum + weight, weighted_value + weight * real_of_int nb))"

definition smooth_value :: "int \<Rightarrow> int list \<Rightarrow> real" where
  "smooth_value center neighbors =
     (case accumulate center neighbors (0, 0) of
        (weight_sum, weighted_value) \<Rightarrow> weighted_value / weight_sum)"

text \<open>
  The cast \<^verbatim>\<open>(unsigned char)\<close> of a value already clamped to \<open>[0, 255]\<close> drops the fraction.
  In \<open>gauss_weight\<close>, \<open>accumulate\<close>, \<open>smooth_value\<close> and \<open>pixel_update\<close> the sums, the quotient,
  the threshold test and the truncation act on exact reals. The byte agrees with the
  program's where the binary32 computation is exact (a flat neighbourhood) or the real value has
  a margin to the threshold and to the integers; on a knife edge it can differ (centre 0 with
  four neighbours 30: quotient 30 here, 29.999998 in binary32, byte 30 against 29).
\<close>

definition to_uchar :: "real \<Rightarrow> byte" where
  "to_uchar r = word_of_int \<lfloor>r\<rfloor>"

definition pixel_update :: "real \<Rightarrow> int \<Rightarrow> int list \<Rightarrow> byte" where
  "pixel_update alpha center neighbors =
     (let smooth = smooth_value center neighbors;
          diff_val = \<bar>smooth - real_of_int center\<bar>;
          result = (if diff_val > threshold then smooth
                    else real_of_int center + alpha * (smooth - real_of_int center))
      in to_uchar (min (max result 0) 255))"

subsection \<open>One sweep over a band of rows\<close>

definition rd :: "byte list \<Rightarrow> int \<Rightarrow> int" where
  "rd buf i = uint (buf ! nat i)"

type_synonym cell = "int \<times> int \<times> int"

definition stencil_cell :: "real \<Rightarrow> int \<Rightarrow> byte list \<Rightarrow> cell \<Rightarrow> byte" where
  "stencil_cell alpha w cur = (\<lambda>(y, x, c).
     pixel_update alpha (rd cur (idx w y x c)) (map (rd cur) (neighbor_indices w y x c)))"

definition write_cell :: "real \<Rightarrow> int \<Rightarrow> byte list \<Rightarrow> cell \<Rightarrow> byte list \<Rightarrow> byte list" where
  "write_cell alpha w cur = (\<lambda>(y, x, c) next.
     next[nat (idx w y x c) := stencil_cell alpha w cur (y, x, c)])"

text \<open>
  The loop nest \<^verbatim>\<open>for y in [lo, hi)\<close>, \<^verbatim>\<open>for x in [1, width - 1)\<close>, \<^verbatim>\<open>for c in [0, 3)\<close>
  in source order.
\<close>

definition cells :: "int \<Rightarrow> int \<Rightarrow> int \<Rightarrow> cell list" where
  "cells lo hi w =
     concat (map (\<lambda>y. concat (map (\<lambda>x. map (\<lambda>c. (y, x, c)) [0..2]) [1..w - 2])) [lo..hi - 1])"

definition sweep :: "real \<Rightarrow> int \<Rightarrow> byte list \<Rightarrow> cell list \<Rightarrow> byte list \<Rightarrow> byte list" where
  "sweep alpha w cur cs next = fold (write_cell alpha w cur) cs next"

subsection \<open>The distributed engine (hybrid lines 75--163)\<close>

text \<open>
  \<^verbatim>\<open>MPI_Allgatherv\<close>: rank \<open>i\<close> contributes \<open>local_count\<close> bytes of its scratch buffer starting at
  row \<open>local_eff_start\<close>; every rank stores the first \<open>recvcounts[i]\<close> of them at \<open>displs[i]\<close> of its
  own snapshot. A negative count is the error \<^verbatim>\<open>MPI_ERR_COUNT\<close>, which aborts the run.
\<close>

datatype mpi_error = MPI_ERR_COUNT

definition send_block :: "int \<Rightarrow> int \<Rightarrow> int \<Rightarrow> int \<Rightarrow> byte list \<Rightarrow> byte list" where
  "send_block w h sz rank next =
     take (nat (local_count w h sz rank)) (drop (nat (local_eff_start h sz rank * w * 3)) next)"

definition recv_block :: "byte list \<times> int \<times> int \<Rightarrow> byte list \<Rightarrow> byte list" where
  "recv_block = (\<lambda>(block, cnt, displ) buf.
     take (nat displ) buf @ take (nat cnt) block @ drop (nat displ + nat cnt) buf)"

definition allgatherv :: "byte list list \<Rightarrow> int list \<Rightarrow> int list \<Rightarrow> byte list \<Rightarrow> byte list" where
  "allgatherv blocks counts ds buf = fold recv_block (zip blocks (zip counts ds)) buf"

definition local_next :: "real \<Rightarrow> int \<Rightarrow> int \<Rightarrow> int \<Rightarrow> int \<Rightarrow> byte list \<Rightarrow> byte list" where
  "local_next alpha w h sz rank cur =
     sweep alpha w cur (cells (local_eff_start h sz rank) (local_eff_end h sz rank) w) cur"

definition round_all ::
  "real \<Rightarrow> int \<Rightarrow> int \<Rightarrow> int \<Rightarrow> byte list list \<Rightarrow> mpi_error + byte list list" where
  "round_all alpha w h sz curs =
     (let blocks = map (\<lambda>rank. send_block w h sz rank
                          (local_next alpha w h sz rank (curs ! nat rank))) [0..sz - 1]
      in if (\<exists>rank\<in>set [0..sz - 1]. local_count w h sz rank < 0)
            \<or> (\<exists>cnt\<in>set (recvcounts w h sz). cnt < 0)
         then Inl MPI_ERR_COUNT
         else Inr (map (allgatherv blocks (recvcounts w h sz) (displs w h sz)) curs))"

fun rounds ::
  "nat \<Rightarrow> real \<Rightarrow> int \<Rightarrow> int \<Rightarrow> int \<Rightarrow> byte list list \<Rightarrow> mpi_error + byte list list" where
  "rounds 0 alpha w h sz curs = Inr curs"
| "rounds (Suc n) alpha w h sz curs =
     (case round_all alpha w h sz curs of
        Inl e \<Rightarrow> Inl e
      | Inr curs' \<Rightarrow> rounds n alpha w h sz curs')"

text \<open>
  All ranks of the group run the function on the broadcast input; the result is what the
  given rank copies into \<^verbatim>\<open>output->data\<close>.
\<close>

definition graph_diffusion_rgb_parallel ::
  "PPMImage \<Rightarrow> real \<Rightarrow> int \<Rightarrow> int \<Rightarrow> int \<Rightarrow> mpi_error + byte list" where
  "graph_diffusion_rgb_parallel input alpha iterations rank sz =
     (let w = width input; h = height input;
          cur = take (nat (w * h * 3)) (data input)
      in case rounds (nat iterations) alpha w h sz (replicate (nat sz) cur) of
           Inl e \<Rightarrow> Inl e
         | Inr curs \<Rightarrow> Inr (curs ! nat rank))"

subsection \<open>The single-process engine (serial lines 62--109)\<close>

text \<open>
  The state of the loop is the pair of buffers behind the pointers \<^verbatim>\<open>temp\<close> and
  \<^verbatim>\<open>output->data\<close>; a round writes the interior cells into the second from the first and swaps
  the two pointers. \<^verbatim>\<open>output->data\<close> comes from \<^verbatim>\<open>malloc\<close> in \<^verbatim>\<open>main\<close>: its contents on entry are
  whatever the argument \<open>output\<close> holds.
\<close>

fun serial_rounds ::
  "nat \<Rightarrow> real \<Rightarrow> int \<Rightarrow> int \<Rightarrow> byte list \<times> byte list \<Rightarrow> byte list \<times> byte list" where
  "serial_rounds 0 alpha w h (temp, out) = (temp, out)"
| "serial_rounds (Suc n) alpha w h (temp, out) =
     serial_rounds n alpha w h (sweep alpha w temp (cells 1 (h - 1) w) out, temp)"

definition graph_diffusion_rgb :: "PPMImage \<Rightarrow> PPMImage \<Rightarrow> real \<Rightarrow> int \<Rightarrow> byte list" where
  "graph_diffusion_rgb input output alpha iterations =
     (let w = width input; h = height input;
          n = nat (w * h * 3);
          (temp, out) = serial_rounds (nat iterations) alpha w h
                          (take n (data input), data output)
      in if iterations smod 2 = 1 then take n temp @ drop n out else out)"

subsection \<open>The two main programs (serial lines 111--150, hybrid lines 165--273)\<close>

text \<open>
  A run of \<^verbatim>\<open>main\<close> is the list of its externally visible steps, in order, and the way it
  ends. The inputs are \<^verbatim>\<open>argc\<close>, the values \<^verbatim>\<open>atof(argv[3])\<close> and \<^verbatim>\<open>atoi(argv[4])\<close>, and the
  result of \<^verbatim>\<open>read_ppm(argv[1])\<close> (\<open>None\<close> for \<^verbatim>\<open>NULL\<close>). The serial program also
  depends on what its freshly allocated output buffer holds.
\<close>

datatype event =
    Print_usage
  | Print_iterations_error
  | Bcast_error_flag int
  | Bcast_width
  | Bcast_height
  | Bcast_data
  | Diffusion
  | Write_ppm "byte list"
  | Finalize

datatype outcome = Exit int | Abort mpi_error

definition main_serial ::
  "int \<Rightarrow> real \<Rightarrow> int \<Rightarrow> PPMImage option \<Rightarrow> byte list \<Rightarrow> event list \<times> outcome" where
  "main_serial argc alpha iterations loaded fresh =
     (if argc \<noteq> 5 then ([Print_usage], Exit 1)
      else if iterations \<le> 0 then ([Print_iterations_error], Exit 1)
      else case loaded of
             None \<Rightarrow> ([], Exit 1)
           | Some input \<Rightarrow>
               (let output = \<lparr>width = width input, height = height input, data = fresh\<rparr>;
                    out = graph_diffusion_rgb input output alpha iterations
                in ([Diffusion, Write_ppm out], Exit 0)))"

text \<open>
  The hybrid program on one rank of a group of \<open>sz\<close>. Only rank 0 reads the file; the other
  ranks learn the result through the broadcast \<^verbatim>\<open>error_flag\<close> and receive width, height and
  data by broadcast, so \<open>loaded\<close> (the result on rank 0) decides the branch on every rank. An
  error of \<^verbatim>\<open>MPI_Allgatherv\<close> aborts the run inside \<^verbatim>\<open>graph_diffusion_rgb_parallel\<close>.
\<close>

definition main_hybrid ::
  "int \<Rightarrow> real \<Rightarrow> int \<Rightarrow> PPMImage option \<Rightarrow> int \<Rightarrow> int \<Rightarrow> event list \<times> outcome" where
  "main_hybrid argc alpha iterations loaded rank sz =
     (if argc \<noteq> 5 then ((if rank = 0 then [Print_usage] else []) @ [Finalize], Exit 1)
      else if iterations \<le> 0
      then ((if rank = 0 then [Print_iterations_error] else []) @ [Finalize], Exit 1)
      else case loaded of
             None \<Rightarrow> ([Bcast_error_flag 1, Finalize], Exit 1)
           | Some input \<Rightarrow>
               (case graph_diffusion_rgb_parallel input alpha iterations rank sz of
                  Inl e \<Rightarrow>
                    ([Bcast_error_flag 0, Bcast_width, Bcast_height, Bcast_data, Diffusion],
                     Abort e)
                | Inr out \<Rightarrow>
                    ([Bcast_error_flag 0, Bcast_width, Bcast_height, Bcast_data, Diffusion]
                       @ (if rank = 0 then [Write_ppm out] else []) @ [Finalize],
                     Exit 0)))"

subsection \<open>Auxiliary notions used in the statements\<close>

text \<open>A byte offset lies in the slice a rank receives.\<close>

definition in_block :: "byte list \<times> int \<times> int \<Rightarrow> nat \<Rightarrow> bool" where
  "in_block = (\<lambda>(block, cnt, displ) j. nat displ \<le> j \<and> j < nat displ + nat cnt)"

text \<open>One round over all interior rows \<open>[1, height - 1)\<close>, from a snapshot into a copy of it.\<close>

definition full_sweep :: "real \<Rightarrow> int \<Rightarrow> int \<Rightarrow> byte list \<Rightarrow> byte list" where
  "full_sweep alpha w h s = sweep alpha w s (cells 1 (h - 1) w) s"

text \<open>The values \<^verbatim>\<open>smooth_value\<close> and \<^verbatim>\<open>diff_val\<close> of a cell in a snapshot.\<close>

definition cell_smooth :: "int \<Rightarrow> byte list \<Rightarrow> cell \<Rightarrow> real" where
  "cell_smooth w s = (\<lambda>(y, x, c).
     smooth_value (rd s (idx w y x c)) (map (rd s) (neighbor_indices w y x c)))"

definition edge_strength :: "int \<Rightarrow> byte list \<Rightarrow> cell \<Rightarrow> real" where
  "edge_strength w s = (\<lambda>(y, x, c).
     \<bar>cell_smooth w s (y, x, c) - real_of_int (rd s (idx w y x c))\<bar>)"

text \<open>
  The program computes \<^verbatim>\<open>smooth_value\<close> in binary32, within rounding distance of the real
  value used here: the weights carry a relative error below \<open>1 / 10^5\<close>, the weighted mean of
  bytes an absolute error below \<open>6 / 1000\<close>. A general statement that names the byte stored
  for a cell is made for cells whose real \<open>smooth_value\<close> keeps the distance \<open>margin\<close> from the
  threshold and from the integers, where rounding cannot change the branch taken or the
  truncated byte.
\<close>

definition margin :: real where
  "margin = 1 / 100"

subsection \<open>Test images\<close>

text \<open>The 4x4 flat gray image of the end-to-end scenario.\<close>

definition gray_image :: PPMImage where
  "gray_image = \<lparr>width = 4, height = 4, data = replicate 48 128\<rparr>"

text \<open>
  \<open>thin_image\<close> is a 3x2 image, without an interior row. \<open>edge_image\<close> is a 3x4 image with
  two interior pixels, \<open>(1,1) = 100\<close> and \<open>(2,1) = 90\<close>: the border neighbours of the first
  are 130, those of the second 120, the corners 0.
\<close>

definition thin_image :: PPMImage where
  "thin_image = \<lparr>width = 3, height = 2, data = replicate 18 50\<rparr>"

definition edge_image :: PPMImage where
  "edge_image = \<lparr>width = 3, height = 4, data =
     [0, 0, 0,       130, 130, 130,  0, 0, 0,
      130, 130, 130, 100, 100, 100,  130, 130, 130,
      120, 120, 120, 90, 90, 90,     120, 120, 120,
      0, 0, 0,       120, 120, 120,  0, 0, 0]\<rparr>"

text \<open>\<open>edge_image\<close> after one round with \<open>alpha = 0\<close>: the pixel \<open>(2,1)\<close> has become 110.\<close>

definition edge_round1 :: PPMImage where
  "edge_round1 = \<lparr>width = 3, height = 4, data =
     [0, 0, 0,       130, 130, 130,  0, 0, 0,
      130, 130, 130, 100, 100, 100,  130, 130, 130,
      120, 120, 120, 110, 110, 110,  120, 120, 120,
      0, 0, 0,       120, 120, 120,  0, 0, 0]\<rparr>"

section \<open>Properties\<close>

subsection \<open>Partition planner\<close>

lemma table_agrees:
  "proc_rows h sz i = local_rows h sz i" "proc_start h sz i = local_start h sz i"
  "proc_end h sz i = local_end h sz i" "eff_start h sz i = local_eff_start h sz i"
  "eff_end h sz i = local_eff_end h sz i"
  by (simp_all add: proc_rows_def local_rows_def proc_start_def local_start_def proc_end_def
      local_end_def eff_start_def local_eff_start_def eff_end_def local_eff_end_def)

lemma sdiv_smod_nonneg:
  fixes h sz :: int
  assumes "0 \<le> h" "0 < sz"
  shows "h sdiv sz = h div sz" "h smod sz = h mod sz"
  using assms by (simp_all add: signed_divide_int_def signed_modulo_int_def sgn_if)

lemma local_start_closed:
  assumes "0 \<le> h" "0 < sz" "0 \<le> r"
  shows "local_start h sz r = r * (h div sz) + min r (h mod sz)"
  using assms
  by (simp add: local_start_def local_rows_def rows_per_proc_def extra_def sdiv_smod_nonneg
      algebra_simps min_def)

lemma local_end_next:
  assumes "0 \<le> h" "0 < sz" "0 \<le> r"
  shows "local_end h sz r = local_start h sz (r + 1)"
  using assms
  by (simp add: local_end_def local_start_closed)
     (simp add: local_rows_def rows_per_proc_def extra_def sdiv_smod_nonneg algebra_simps min_def)

lemma local_start_zero: "0 \<le> h \<Longrightarrow> 0 < sz \<Longrightarrow> local_start h sz 0 = 0"
  by (simp add: local_start_closed)

lemma local_start_last:
  assumes "0 \<le> h" "0 < sz"
  shows "local_start h sz sz = h"
proof -
  have "h mod sz < sz" using assms by simp
  then have "min sz (h mod sz) = h mod sz" by simp
  then have "local_start h sz sz = sz * (h div sz) + h mod sz"
    using assms by (simp add: local_start_closed)
  then show ?thesis by simp
qed

lemma local_rows_bounds:
  assumes "0 \<le> h" "0 < sz"
  shows "h div sz \<le> local_rows h sz r" "local_rows h sz r \<le> h div sz + 1"
  using assms by (simp_all add: local_rows_def rows_per_proc_def sdiv_smod_nonneg)

lemma local_rows_pos:
  assumes "0 < sz" "sz \<le> h"
  shows "1 \<le> local_rows h sz r"
proof -
  have "sz div sz \<le> h div sz" using assms by (intro zdiv_mono1) auto
  then have "1 \<le> h div sz" using assms by simp
  moreover have "h div sz \<le> local_rows h sz r" using assms by (intro local_rows_bounds) auto
  ultimately show ?thesis by linarith
qed

lemma local_start_mono_step:
  assumes "0 \<le> h" "0 < sz" "0 \<le> r"
  shows "local_start h sz r \<le> local_start h sz (r + 1)"
proof -
  have "0 \<le> h div sz" using assms by (simp add: pos_imp_zdiv_nonneg_iff)
  then have "0 \<le> local_rows h sz r" using local_rows_bounds(1)[OF assms(1,2), of r] by linarith
  then show ?thesis using local_end_next[OF assms] by (simp add: local_end_def)
qed

lemma local_start_mono:
  assumes "0 \<le> h" "0 < sz" "0 \<le> r" "r \<le> r'"
  shows "local_start h sz r \<le> local_start h sz r'"
proof -
  have "local_start h sz r \<le> local_start h sz (r + int n)" for n
  proof (induction n)
    case 0
    then show ?case by simp
  next
    case (Suc n)
    have "local_start h sz (r + int n) \<le> local_start h sz (r + int n + 1)"
      using assms by (intro local_start_mono_step) auto
    with Suc show ?case by (simp add: ac_simps)
  qed
  from this[of "nat (r' - r)"] assms show ?thesis by simp
qed

lemma blocks_union_upto:
  assumes "0 \<le> h" "0 < sz"
  shows "(\<Union>r\<in>{0..<int n}. {local_start h sz r..<local_end h sz r}) = {0..<local_start h sz (int n)}"
proof (induction n)
  case 0
  then show ?case using assms by (simp add: local_start_zero)
next
  case (Suc n)
  have split: "{0..<int (Suc n)} = insert (int n) {0..<int n}" by auto
  have e: "local_end h sz (int n) = local_start h sz (int (Suc n))"
    using local_end_next[OF assms, of "int n"] by (simp add: add.commute)
  have m0: "0 \<le> local_start h sz (int n)"
    using local_start_mono[OF assms, of 0 "int n"] assms by (simp add: local_start_zero)
  have m1: "local_start h sz (int n) \<le> local_start h sz (int (Suc n))"
    using local_start_mono_step[OF assms, of "int n"] by (simp add: add.commute)
  show ?case
    unfolding split UN_insert Suc.IH e using m0 m1 by auto
qed

text \<open>
  C3. For \<open>height \<ge> 1\<close> and \<open>1 \<le> worker_count \<le> height\<close> the row ranges
  \<open>[local_start, local_start + local_rows)\<close> of the ranks \<open>0 .. worker_count - 1\<close> are non-empty,
  pairwise disjoint, and their union is exactly \<open>[0, height)\<close>. The ranges are functions of
  \<open>(height, worker_count, rank)\<close> alone, and the table every rank rebuilds for the exchange
  (\<open>proc_start\<close>, \<open>proc_rows\<close>) is the same function.
\<close>

theorem partition_tiles_rows:
  assumes "1 \<le> h" "1 \<le> sz" "sz \<le> h"
  shows "(\<Union>r\<in>{0..<sz}. {local_start h sz r..<local_start h sz r + local_rows h sz r}) = {0..<h}
       \<and> (\<forall>r\<in>{0..<sz}. \<forall>r'\<in>{0..<sz}. r \<noteq> r' \<longrightarrow>
            {local_start h sz r..<local_start h sz r + local_rows h sz r}
            \<inter> {local_start h sz r'..<local_start h sz r' + local_rows h sz r'} = {})
       \<and> (\<forall>r\<in>{0..<sz}. 1 \<le> local_rows h sz r
            \<and> proc_start h sz r = local_start h sz r \<and> proc_rows h sz r = local_rows h sz r)"
proof -
  have h0: "0 \<le> h" and s0: "0 < sz" using assms by auto
  have "(\<Union>r\<in>{0..<int (nat sz)}. {local_start h sz r..<local_end h sz r})
          = {0..<local_start h sz (int (nat sz))}"
    by (rule blocks_union_upto[OF h0 s0])
  then have u: "(\<Union>r\<in>{0..<sz}. {local_start h sz r..<local_start h sz r + local_rows h sz r})
          = {0..<h}"
    using s0 by (simp add: local_start_last[OF h0 s0] local_end_def)
  have d: "{local_start h sz r..<local_start h sz r + local_rows h sz r}
            \<inter> {local_start h sz r'..<local_start h sz r' + local_rows h sz r'} = {}"
    if "0 \<le> r" "r < r'" for r r'
  proof -
    have "local_start h sz r + local_rows h sz r = local_start h sz (r + 1)"
      using local_end_next[OF h0 s0 that(1)] by (simp add: local_end_def)
    moreover have "local_start h sz (r + 1) \<le> local_start h sz r'"
      using that by (intro local_start_mono[OF h0 s0]) auto
    ultimately show ?thesis by auto
  qed
  have dd: "\<forall>r\<in>{0..<sz}. \<forall>r'\<in>{0..<sz}. r \<noteq> r' \<longrightarrow>
            {local_start h sz r..<local_start h sz r + local_rows h sz r}
            \<inter> {local_start h sz r'..<local_start h sz r' + local_rows h sz r'} = {}"
  proof (intro ballI impI)
    fix r r' assume "r \<in> {0..<sz}" "r' \<in> {0..<sz}" "r \<noteq> r'"
    then consider "0 \<le> r \<and> r < r'" | "0 \<le> r' \<and> r' < r" by fastforce
    then show "{local_start h sz r..<local_start h sz r + local_rows h sz r}
            \<inter> {local_start h sz r'..<local_start h sz r' + local_rows h sz r'} = {}"
    proof cases
      case 1 then show ?thesis using d[of r r'] by simp
    next
      case 2 then show ?thesis using d[of r' r] by (simp add: Int_commute)
    qed
  qed
  have p: "\<forall>r\<in>{0..<sz}. 1 \<le> local_rows h sz r
            \<and> proc_start h sz r = local_start h sz r \<and> proc_rows h sz r = local_rows h sz r"
    using local_rows_pos[OF s0 assms(3)] by (simp add: table_agrees)
  from u dd p show ?thesis by blast
qed

theorem partition_tiles_rows_witness:
  "(\<Union>r\<in>{0..<3}. {local_start 7 3 r..<local_start 7 3 r + local_rows 7 3 r}) = {0..<7}
   \<and> local_start 7 3 0 = 0 \<and> local_rows 7 3 0 = 3
   \<and> local_start 7 3 1 = 3 \<and> local_rows 7 3 1 = 2
   \<and> local_start 7 3 2 = 5 \<and> local_rows 7 3 2 = 2"
  using partition_tiles_rows[of 7 3]
  by (simp add: local_start_def local_rows_def rows_per_proc_def extra_def
      signed_divide_int_def signed_modulo_int_def)

subsection \<open>Offsets of a cell and of its neighbours\<close>

lemma idx_bounds:
  assumes "1 \<le> y" "y \<le> h - 2" "1 \<le> x" "x \<le> w - 2" "0 \<le> c" "c < 3"
  shows "\<forall>i\<in>set (idx w y x c # neighbor_indices w y x c). 0 \<le> i \<and> i < w * h * 3"
proof -
  define p where "p = y * w"
  define q where "q = w * h"
  have w: "0 \<le> w" using assms by linarith
  have a: "y * w \<le> (h - 2) * w" using assms w by (intro mult_right_mono) auto
  have b: "0 \<le> (y - 1) * w" using assms w by (intro mult_nonneg_nonneg) auto
  have a': "p + 2 * w \<le> q" using a by (simp add: algebra_simps p_def q_def)
  have b': "w \<le> p" using b by (simp add: algebra_simps p_def)
  have e: "(y - 1) * w = p - w" "(y + 1) * w = p + w"
    by (simp_all add: algebra_simps p_def)
  show ?thesis
    unfolding idx_def neighbor_indices_def e p_def[symmetric] q_def[symmetric]
    using a' b' assms by simp
qed

text \<open>
  The intermediate values of the offset expressions are bounded by the byte count as well, so
  the \<^verbatim>\<open>int\<close> arithmetic of the source does not overflow when the byte count fits in an
  \<^verbatim>\<open>int\<close>.
\<close>

lemma idx_steps_bounded:
  fixes w h y x :: int
  assumes "1 \<le> y" "y \<le> h - 2" "1 \<le> x" "x \<le> w - 2"
  shows "\<forall>v\<in>set [y * w, y * w + x, (y * w + x) * 3,
                   (y - 1) * w, (y - 1) * w + x, ((y - 1) * w + x) * 3,
                   (y + 1) * w, (y + 1) * w + x, ((y + 1) * w + x) * 3,
                   y * w + (x - 1), (y * w + (x - 1)) * 3,
                   y * w + (x + 1), (y * w + (x + 1)) * 3]. 0 \<le> v \<and> v < w * h * 3"
proof -
  define p where "p = y * w"
  define q where "q = w * h"
  have w: "0 \<le> w" using assms by linarith
  have a: "y * w \<le> (h - 2) * w" using assms w by (intro mult_right_mono) auto
  have b: "0 \<le> (y - 1) * w" using assms w by (intro mult_nonneg_nonneg) auto
  have a': "p + 2 * w \<le> q" using a by (simp add: algebra_simps p_def q_def)
  have b': "w \<le> p" using b by (simp add: algebra_simps p_def)
  have e: "(y - 1) * w = p - w" "(y + 1) * w = p + w"
    by (simp_all add: algebra_simps p_def)
  show ?thesis
    unfolding e p_def[symmetric] q_def[symmetric]
    using a' b' assms by simp
qed

text \<open>
  C10. For an image whose buffer has \<open>width * height * 3\<close> bytes and a cell with
  \<open>1 \<le> y \<le> height - 2\<close>, \<open>1 \<le> x \<le> width - 2\<close>, \<open>c \<in> {0, 1, 2}\<close>, the offset written
  and the five offsets read (the centre and its four axis neighbours) lie in
  \<open>[0, width * height * 3)\<close>, hence inside the buffer.
\<close>

theorem stencil_indices_in_bounds:
  assumes "int (length (data img)) = width img * height img * 3"
    and "1 \<le> y" "y \<le> height img - 2" "1 \<le> x" "x \<le> width img - 2" "0 \<le> c" "c < 3"
  shows "\<forall>i\<in>set (idx (width img) y x c # neighbor_indices (width img) y x c).
           0 \<le> i \<and> i < width img * height img * 3 \<and> nat i < length (data img)"
  using idx_bounds[OF assms(2-7)] assms(1) by auto

theorem stencil_indices_in_bounds_witness:
  "idx (width gray_image) 2 1 0 = 27
   \<and> neighbor_indices (width gray_image) 2 1 0 = [15, 39, 24, 30]
   \<and> nat (idx (width gray_image) 2 1 0) < length (data gray_image)
   \<and> list_all (\<lambda>i. 0 \<le> i \<and> nat i < length (data gray_image))
        (neighbor_indices (width gray_image) 2 1 0)"
  using stencil_indices_in_bounds[of gray_image 2 1 0]
  by (simp add: gray_image_def idx_def neighbor_indices_def)

lemma cells_iff:
  "(y, x, c) \<in> set (cells lo hi w) \<longleftrightarrow> lo \<le> y \<and> y < hi \<and> 1 \<le> x \<and> x \<le> w - 2 \<and> 0 \<le> c \<and> c \<le> 2"
  by (force simp: cells_def)

lemma idx_inj:
  assumes "idx w y x c = idx w y' x' c'" "0 \<le> x" "x < w" "0 \<le> x'" "x' < w"
    "0 \<le> c" "c < 3" "0 \<le> c'" "c' < 3"
  shows "y = y' \<and> x = x' \<and> c = c'"
proof -
  from assms have e: "(y * w + x) * 3 + c = (y' * w + x') * 3 + c'" by (simp add: idx_def)
  with assms have c: "c = c'" by presburger
  with e have e2: "y * w + x = y' * w + x'" by simp
  then have "(y - y') * w = x' - x" by (simp add: algebra_simps)
  moreover have "\<bar>x' - x\<bar> < w" using assms by linarith
  ultimately have "\<bar>(y - y') * w\<bar> < w" by simp
  then have "\<bar>y - y'\<bar> * w < w" using assms by (simp add: abs_mult)
  then have "\<bar>y - y'\<bar> < 1" using assms by (smt (verit) mult_less_cancel_right2)
  then have y: "y = y'" by linarith
  with e2 c show ?thesis by simp
qed

subsection \<open>Order of the cell updates within a round\<close>

lemma length_write_cell [simp]: "length (write_cell alpha w cur cell nxt) = length nxt"
  by (cases cell) (simp add: write_cell_def)

lemma length_sweep [simp]: "length (sweep alpha w cur cs nxt) = length nxt"
  unfolding sweep_def by (induction cs arbitrary: nxt) auto

lemma cell_idx_inj:
  assumes "a \<in> set (cells lo hi w)" "b \<in> set (cells lo hi w)" "0 \<le> lo"
    and "nat (case a of (y, x, c) \<Rightarrow> idx w y x c) = nat (case b of (y, x, c) \<Rightarrow> idx w y x c)"
  shows "a = b"
proof -
  obtain y x c where a: "a = (y, x, c)" by (cases a)
  obtain y' x' c' where b: "b = (y', x', c')" by (cases b)
  have ra: "lo \<le> y" "1 \<le> x" "x \<le> w - 2" "0 \<le> c" "c \<le> 2"
    using assms(1) by (simp_all add: a cells_iff)
  have rb: "lo \<le> y'" "1 \<le> x'" "x' \<le> w - 2" "0 \<le> c'" "c' \<le> 2"
    using assms(2) by (simp_all add: b cells_iff)
  have w: "0 \<le> w" using ra by linarith
  have "0 \<le> y * w" "0 \<le> y' * w" using ra rb assms(3) w by (auto intro!: mult_nonneg_nonneg)
  then have "0 \<le> idx w y x c" "0 \<le> idx w y' x' c'"
    using ra rb by (simp_all add: idx_def)
  with assms(4) have "idx w y x c = idx w y' x' c'" by (simp add: a b)
  from idx_inj[OF this] ra rb show ?thesis by (simp add: a b)
qed

lemma write_cell_commute:
  assumes "a \<in> set (cells lo hi w)" "b \<in> set (cells lo hi w)" "0 \<le> lo"
  shows "write_cell alpha w cur a \<circ> write_cell alpha w cur b
       = write_cell alpha w cur b \<circ> write_cell alpha w cur a"
proof (cases "a = b")
  case True
  then show ?thesis by simp
next
  case False
  with cell_idx_inj[OF assms] have
    "nat (case a of (y, x, c) \<Rightarrow> idx w y x c) \<noteq> nat (case b of (y, x, c) \<Rightarrow> idx w y x c)"
    by blast
  then show ?thesis
    by (cases a; cases b) (auto simp: write_cell_def fun_eq_iff list_update_swap)
qed

lemma local_eff_start_ge1: "1 \<le> local_eff_start h sz rank"
  by (simp add: local_eff_start_def)

lemma sweep_other:
  assumes "\<forall>(y, x, c)\<in>set cs. nat (idx w y x c) \<noteq> j"
  shows "sweep alpha w cur cs nxt ! j = nxt ! j"
  using assms unfolding sweep_def
  by (induction cs arbitrary: nxt) (auto simp: write_cell_def)

lemma sweep_hit:
  assumes "a \<in> set cs" "set cs \<subseteq> set (cells lo hi w)" "0 \<le> lo"
    and "nat (case a of (y, x, c) \<Rightarrow> idx w y x c) < length nxt"
  shows "sweep alpha w cur cs nxt ! nat (case a of (y, x, c) \<Rightarrow> idx w y x c)
       = stencil_cell alpha w cur a"
  using assms unfolding sweep_def
proof (induction cs arbitrary: nxt)
  case Nil
  then show ?case by simp
next
  case (Cons b cs)
  let ?ia = "nat (case a of (y, x, c) \<Rightarrow> idx w y x c)"
  show ?case
  proof (cases "a \<in> set cs")
    case True
    with Cons show ?thesis by simp
  next
    case False
    with Cons.prems have ab: "a = b" by simp
    have "\<forall>(y, x, c)\<in>set cs. nat (idx w y x c) \<noteq> ?ia"
    proof (clarify)
      fix y x c assume m: "(y, x, c) \<in> set cs" and e: "nat (idx w y x c) = ?ia"
      have "(y, x, c) \<in> set (cells lo hi w)" "a \<in> set (cells lo hi w)"
        using m Cons.prems by auto
      from cell_idx_inj[OF this \<open>0 \<le> lo\<close>] e have "(y, x, c) = a" by simp
      with m False show False by simp
    qed
    from sweep_other[OF this, unfolded sweep_def] Cons.prems(4) show ?thesis
      by (cases b) (simp add: ab write_cell_def)
  qed
qed

text \<open>
  C5. The engine is a function of its inputs, and within a round the scratch buffer does not
  depend on the order in which the cells of a rank's effective region are visited: for every
  permutation of the cell list the sweep gives the buffer of the source order. The reason is
  the one the claim gives: distinct cells of the region are written at distinct offsets, and
  the value written for a cell is computed from the round-start snapshot alone.
\<close>

theorem sweep_order_independent:
  assumes "mset cs = mset (cells (local_eff_start h sz rank) (local_eff_end h sz rank) w)"
  shows "sweep alpha w cur cs cur = local_next alpha w h sz rank cur
       \<and> (\<forall>a\<in>set cs. \<forall>b\<in>set cs.
            nat (case a of (y, x, c) \<Rightarrow> idx w y x c) = nat (case b of (y, x, c) \<Rightarrow> idx w y x c)
            \<longrightarrow> a = b)
       \<and> (\<forall>a\<in>set cs. nat (case a of (y, x, c) \<Rightarrow> idx w y x c) < length cur \<longrightarrow>
            sweep alpha w cur cs cur ! nat (case a of (y, x, c) \<Rightarrow> idx w y x c)
              = stencil_cell alpha w cur a)"
proof -
  let ?cells = "cells (local_eff_start h sz rank) (local_eff_end h sz rank) w"
  have lo: "0 \<le> local_eff_start h sz rank" using local_eff_start_ge1[of h sz rank] by linarith
  have s: "set cs = set ?cells" using assms by (rule mset_eq_setD)
  have "fold (write_cell alpha w cur) ?cells = fold (write_cell alpha w cur) cs"
    by (rule fold_multiset_equiv) (use assms lo in \<open>auto intro: write_cell_commute\<close>)
  then have 1: "sweep alpha w cur cs cur = local_next alpha w h sz rank cur"
    by (simp add: sweep_def local_next_def)
  have 2: "\<forall>a\<in>set cs. \<forall>b\<in>set cs.
            nat (case a of (y, x, c) \<Rightarrow> idx w y x c) = nat (case b of (y, x, c) \<Rightarrow> idx w y x c)
            \<longrightarrow> a = b"
    using cell_idx_inj[OF _ _ lo] s by blast
  have 3: "\<forall>a\<in>set cs. nat (case a of (y, x, c) \<Rightarrow> idx w y x c) < length cur \<longrightarrow>
            sweep alpha w cur cs cur ! nat (case a of (y, x, c) \<Rightarrow> idx w y x c)
              = stencil_cell alpha w cur a"
    using sweep_hit[OF _ _ lo, of _ cs _ w cur alpha] s by blast
  from 1 2 3 show ?thesis by blast
qed

theorem sweep_order_independent_witness:
  "sweep (1/2) 3 (replicate 27 128) (rev (cells (local_eff_start 3 1 0) (local_eff_end 3 1 0) 3))
      (replicate 27 128)
   = local_next (1/2) 3 3 1 0 (replicate 27 128)"
  using sweep_order_independent[of "rev (cells (local_eff_start 3 1 0) (local_eff_end 3 1 0) 3)"
      3 1 0 3 "1/2" "replicate 27 128"]
  by simp

subsection \<open>The exchange, slice by slice\<close>

lemma length_recv_block:
  assumes "nat displ + nat cnt \<le> length buf" "nat cnt \<le> length block"
  shows "length (recv_block (block, cnt, displ) buf) = length buf"
  using assms by (simp add: recv_block_def)

lemma recv_block_nth:
  assumes "nat displ + nat cnt \<le> length buf" "nat cnt \<le> length block" "j < length buf"
  shows "recv_block (block, cnt, displ) buf ! j =
           (if nat displ \<le> j \<and> j < nat displ + nat cnt then block ! (j - nat displ) else buf ! j)"
  using assms by (auto simp: recv_block_def nth_append)


lemma fold_recv_block:
  assumes "\<forall>(block, cnt, displ)\<in>set items.
             nat displ + nat cnt \<le> length buf \<and> nat cnt \<le> length block
             \<and> (\<forall>j. nat displ \<le> j \<and> j < nat displ + nat cnt \<longrightarrow> block ! (j - nat displ) = t j)"
  shows "length (fold recv_block items buf) = length buf
       \<and> (\<forall>j<length buf. fold recv_block items buf ! j =
             (if \<exists>item\<in>set items. in_block item j then t j else buf ! j))"
  using assms
proof (induction items arbitrary: buf)
  case Nil
  then show ?case by simp
next
  case (Cons item items)
  obtain block cnt displ where item: "item = (block, cnt, displ)" by (cases item)
  let ?buf = "recv_block item buf"
  have b: "nat displ + nat cnt \<le> length buf" "nat cnt \<le> length block"
    and tb: "\<And>j. nat displ \<le> j \<Longrightarrow> j < nat displ + nat cnt \<Longrightarrow> block ! (j - nat displ) = t j"
    using Cons.prems by (auto simp: item)
  have len: "length ?buf = length buf" unfolding item by (rule length_recv_block[OF b])
  have "\<forall>(block, cnt, displ)\<in>set items.
             nat displ + nat cnt \<le> length ?buf \<and> nat cnt \<le> length block
             \<and> (\<forall>j. nat displ \<le> j \<and> j < nat displ + nat cnt \<longrightarrow> block ! (j - nat displ) = t j)"
    using Cons.prems unfolding len by auto
  from Cons.IH[OF this] have
    ih1: "length (fold recv_block items ?buf) = length buf" and
    ih2: "\<And>j. j < length buf \<Longrightarrow> fold recv_block items ?buf ! j =
             (if \<exists>item\<in>set items. in_block item j then t j else ?buf ! j)"
    unfolding len by auto
  have "fold recv_block (item # items) buf ! j =
             (if \<exists>it\<in>set (item # items). in_block it j then t j else buf ! j)"
    if j: "j < length buf" for j
  proof -
    have "?buf ! j = (if in_block item j then t j else buf ! j)"
      unfolding item using recv_block_nth[OF b j] tb by (simp add: in_block_def)
    with ih2[OF j] show ?thesis by simp
  qed
  with ih1 show ?case by simp
qed

lemma zip3_map:
  "zip (map f xs) (zip (map g xs) (map k xs)) = map (\<lambda>x. (f x, g x, k x)) xs"
  by (induction xs) auto

subsection \<open>Rows, blocks and slices\<close>

lemma idx_row_ge:
  assumes "0 \<le> x" "x < w" "0 \<le> c" "c < 3"
  shows "a * w * 3 \<le> idx w y x c \<longleftrightarrow> a \<le> y"
proof
  define p q where "p = a * w" and "q = y * w"
  assume "a \<le> y"
  then have "a * w \<le> y * w" using assms by (intro mult_right_mono) auto
  then have "p \<le> q" by (simp add: p_def q_def)
  then have "p * 3 \<le> (q + x) * 3 + c" using assms by simp
  then show "a * w * 3 \<le> idx w y x c" by (simp add: idx_def p_def q_def)
next
  define p q where "p = a * w" and "q = y * w"
  assume l: "a * w * 3 \<le> idx w y x c"
  then have l': "p * 3 \<le> (q + x) * 3 + c" by (simp add: idx_def p_def q_def)
  show "a \<le> y"
  proof (rule ccontr)
    assume "\<not> a \<le> y"
    then have "y + 1 \<le> a" by simp
    then have "(y + 1) * w \<le> a * w" using assms by (intro mult_right_mono) auto
    then have "q + w \<le> p" by (simp add: algebra_simps p_def q_def)
    with l' assms show False by simp
  qed
qed

lemma idx_row_lt:
  assumes "0 \<le> x" "x < w" "0 \<le> c" "c < 3"
  shows "idx w y x c < b * w * 3 \<longleftrightarrow> y < b"
proof
  define p q where "p = b * w" and "q = y * w"
  assume "y < b"
  then have "y + 1 \<le> b" by simp
  then have "(y + 1) * w \<le> b * w" using assms by (intro mult_right_mono) auto
  then have "q + w \<le> p" by (simp add: algebra_simps p_def q_def)
  then have "(q + x) * 3 + c < p * 3" using assms by simp
  then show "idx w y x c < b * w * 3" by (simp add: idx_def p_def q_def)
next
  define p q where "p = b * w" and "q = y * w"
  assume l: "idx w y x c < b * w * 3"
  then have l': "(q + x) * 3 + c < p * 3" by (simp add: idx_def p_def q_def)
  show "y < b"
  proof (rule ccontr)
    assume "\<not> y < b"
    then have "b \<le> y" by simp
    then have "b * w \<le> y * w" using assms by (intro mult_right_mono) auto
    then have "p \<le> q" by (simp add: p_def q_def)
    with l' assms show False by simp
  qed
qed

lemma block_range:
  assumes "0 \<le> h" "0 < sz" "0 \<le> i" "i < sz"
  shows "0 \<le> local_start h sz i" "local_end h sz i \<le> h"
proof -
  show "0 \<le> local_start h sz i"
    using local_start_mono[OF assms(1,2), of 0 i] assms by (simp add: local_start_zero)
  have "local_start h sz (i + 1) \<le> local_start h sz sz"
    using assms by (intro local_start_mono) auto
  then show "local_end h sz i \<le> h"
    using assms by (simp add: local_end_next local_start_last)
qed

lemma eff_range:
  assumes "2 \<le> h" "1 \<le> sz" "sz \<le> h" "0 \<le> i" "i < sz"
  shows "1 \<le> local_eff_start h sz i" "local_eff_start h sz i \<le> local_eff_end h sz i"
    "local_eff_end h sz i \<le> h - 1"
proof -
  have r: "1 \<le> local_rows h sz i" using assms by (intro local_rows_pos) auto
  have b: "0 \<le> local_start h sz i" "local_end h sz i \<le> h"
    using assms by (auto intro!: block_range)
  show "1 \<le> local_eff_start h sz i" by (simp add: local_eff_start_def)
  show "local_eff_start h sz i \<le> local_eff_end h sz i"
    using r b assms by (simp add: local_eff_start_def local_eff_end_def local_end_def)
  show "local_eff_end h sz i \<le> h - 1" by (simp add: local_eff_end_def)
qed

text \<open>
  Every cell a rank visits is an interior cell, whatever the worker count: the offsets it reads
  and writes are the ones bounded in \<open>idx_bounds\<close>.
\<close>

lemma effective_cells_interior:
  assumes "(y, x, c) \<in> set (cells (local_eff_start h sz rank) (local_eff_end h sz rank) w)"
  shows "1 \<le> y \<and> y \<le> h - 2 \<and> 1 \<le> x \<and> x \<le> w - 2 \<and> 0 \<le> c \<and> c < 3"
proof -
  have "1 \<le> local_eff_start h sz rank" by (simp add: local_eff_start_def)
  moreover have "local_eff_end h sz rank \<le> h - 1" by (simp add: local_eff_end_def)
  ultimately show ?thesis using assms by (simp add: cells_iff)
qed

lemma row_owner:
  assumes "0 \<le> h" "0 < sz" "0 \<le> y" "y < h"
  shows "\<exists>i. 0 \<le> i \<and> i < sz \<and> local_start h sz i \<le> y \<and> y < local_end h sz i"
proof -
  have "(\<Union>r\<in>{0..<int (nat sz)}. {local_start h sz r..<local_end h sz r})
          = {0..<local_start h sz (int (nat sz))}"
    by (rule blocks_union_upto[OF assms(1,2)])
  then have "(\<Union>r\<in>{0..<sz}. {local_start h sz r..<local_end h sz r}) = {0..<h}"
    using assms by (simp add: local_start_last)
  moreover have "y \<in> {0..<h}" using assms by simp
  ultimately have "y \<in> (\<Union>r\<in>{0..<sz}. {local_start h sz r..<local_end h sz r})" by simp
  then show ?thesis by auto
qed

lemma interior_row_owner:
  assumes "2 \<le> h" "1 \<le> sz" "1 \<le> y" "y < h - 1"
  shows "\<exists>i. 0 \<le> i \<and> i < sz \<and> local_eff_start h sz i \<le> y \<and> y < local_eff_end h sz i"
proof -
  from row_owner[of h sz y] assms obtain i where
    "0 \<le> i" "i < sz" "local_start h sz i \<le> y" "y < local_end h sz i" by auto
  then show ?thesis
    using assms by (intro exI[of _ i]) (simp add: local_eff_start_def local_eff_end_def)
qed

lemma slice_rows:
  assumes "0 \<le> a" "a \<le> b" "0 \<le> w"
  shows "nat (a * w * 3) \<le> j \<and> j < nat (a * w * 3) + nat ((b - a) * w * 3)
         \<longleftrightarrow> a * w * 3 \<le> int j \<and> int j < b * w * 3"
proof -
  have "0 \<le> a * w * 3" "0 \<le> (b - a) * w * 3" using assms by auto
  then have "int (nat (a * w * 3) + nat ((b - a) * w * 3)) = b * w * 3"
    by (simp add: algebra_simps)
  then have "j < nat (a * w * 3) + nat ((b - a) * w * 3) \<longleftrightarrow> int j < b * w * 3"
    by linarith
  moreover have "nat (a * w * 3) \<le> j \<longleftrightarrow> a * w * 3 \<le> int j" by linarith
  ultimately show ?thesis by simp
qed

subsection \<open>A rank's sweep against the sweep of all interior rows\<close>


lemma length_full_sweep [simp]: "length (full_sweep alpha w h s) = length s"
  by (simp add: full_sweep_def)

lemma length_local_next [simp]: "length (local_next alpha w h sz i s) = length s"
  by (simp add: local_next_def)

lemma cell_idx_nonneg:
  assumes "(y, x, c) \<in> set (cells lo hi w)" "0 \<le> lo"
  shows "0 \<le> idx w y x c"
proof -
  have r: "lo \<le> y" "1 \<le> x" "x \<le> w - 2" "0 \<le> c" using assms(1) by (simp_all add: cells_iff)
  then have "0 \<le> y * w" using assms(2) by (intro mult_nonneg_nonneg) auto
  then show ?thesis using r by (simp add: idx_def)
qed

lemma local_vs_full:
  assumes "2 \<le> h" "1 \<le> sz" "sz \<le> h" "0 \<le> i" "i < sz"
    and "j < length s"
    and "local_eff_start h sz i * w * 3 \<le> int j" "int j < local_eff_end h sz i * w * 3"
  shows "local_next alpha w h sz i s ! j = full_sweep alpha w h s ! j"
proof -
  let ?es = "local_eff_start h sz i" and ?ee = "local_eff_end h sz i"
  note er = eff_range[OF assms(1-5)]
  have sub: "set (cells ?es ?ee w) \<subseteq> set (cells 1 (h - 1) w)"
    using er by (auto simp: cells_iff)
  show ?thesis
  proof (cases "\<exists>a\<in>set (cells 1 (h - 1) w). nat (case a of (y, x, c) \<Rightarrow> idx w y x c) = j")
    case True
    then obtain y x c where a: "(y, x, c) \<in> set (cells 1 (h - 1) w)" and j: "nat (idx w y x c) = j"
      by auto
    have r: "1 \<le> x" "x \<le> w - 2" "0 \<le> c" "c \<le> 2" using a by (simp_all add: cells_iff)
    have "0 \<le> idx w y x c" using a by (rule cell_idx_nonneg) simp
    with j have ij: "int j = idx w y x c" by simp
    have "?es \<le> y" using assms(7) r unfolding ij by (subst (asm) idx_row_ge) auto
    moreover have "y < ?ee" using assms(8) r unfolding ij by (subst (asm) idx_row_lt) auto
    ultimately have a': "(y, x, c) \<in> set (cells ?es ?ee w)" using r by (simp add: cells_iff)
    have "sweep alpha w s (cells ?es ?ee w) s ! nat (case (y, x, c) of (y, x, c) \<Rightarrow> idx w y x c)
            = stencil_cell alpha w s (y, x, c)"
      using er assms(6) j by (intro sweep_hit[OF a', of ?es ?ee]) auto
    moreover have "sweep alpha w s (cells 1 (h - 1) w) s
                     ! nat (case (y, x, c) of (y, x, c) \<Rightarrow> idx w y x c)
            = stencil_cell alpha w s (y, x, c)"
      using assms(6) j by (intro sweep_hit[OF a, of 1 "h - 1"]) auto
    ultimately show ?thesis by (simp add: local_next_def full_sweep_def j)
  next
    case False
    then have 1: "\<forall>(y, x, c)\<in>set (cells 1 (h - 1) w). nat (idx w y x c) \<noteq> j" by auto
    with sub have 2: "\<forall>(y, x, c)\<in>set (cells ?es ?ee w). nat (idx w y x c) \<noteq> j" by blast
    show ?thesis
      by (simp add: local_next_def full_sweep_def sweep_other[OF 1] sweep_other[OF 2])
  qed
qed

lemma full_outside:
  assumes "2 \<le> h" "1 \<le> sz"
    and "\<forall>i. 0 \<le> i \<and> i < sz \<longrightarrow>
           \<not> (local_eff_start h sz i * w * 3 \<le> int j \<and> int j < local_eff_end h sz i * w * 3)"
  shows "full_sweep alpha w h s ! j = s ! j"
proof -
  have "\<forall>(y, x, c)\<in>set (cells 1 (h - 1) w). nat (idx w y x c) \<noteq> j"
  proof clarify
    fix y x c assume a: "(y, x, c) \<in> set (cells 1 (h - 1) w)" and j: "j = nat (idx w y x c)"
    have r: "1 \<le> y" "y < h - 1" "1 \<le> x" "x \<le> w - 2" "0 \<le> c" "c \<le> 2"
      using a by (simp_all add: cells_iff)
    have "0 \<le> idx w y x c" using a by (rule cell_idx_nonneg) simp
    with j have ij: "int j = idx w y x c" by simp
    from interior_row_owner[OF assms(1,2) r(1,2)] obtain i where
      i: "0 \<le> i" "i < sz" "local_eff_start h sz i \<le> y" "y < local_eff_end h sz i" by auto
    have "local_eff_start h sz i * w * 3 \<le> int j" unfolding ij using i r
      by (subst idx_row_ge) auto
    moreover have "int j < local_eff_end h sz i * w * 3" unfolding ij using i r
      by (subst idx_row_lt) auto
    ultimately show False using assms(3) i by blast
  qed
  from sweep_other[OF this] show ?thesis by (simp add: full_sweep_def)
qed

subsection \<open>The exchange rebuilds the full sweep\<close>

lemma counts_nonneg:
  assumes "0 \<le> w" "2 \<le> h" "1 \<le> sz" "sz \<le> h" "0 \<le> i" "i < sz"
  shows "0 \<le> local_count w h sz i"
proof -
  note er = eff_range[OF assms(2-6)]
  have "0 \<le> (local_eff_end h sz i - local_eff_start h sz i) * w"
    using er assms(1) by (intro mult_nonneg_nonneg) auto
  then show ?thesis by (simp add: local_count_def)
qed

lemma slice_fits:
  assumes "0 \<le> w" "2 \<le> h" "1 \<le> sz" "sz \<le> h" "0 \<le> i" "i < sz"
    and "int (length s) = w * h * 3"
  shows "nat (local_eff_start h sz i * w * 3) + nat (local_count w h sz i) \<le> length s"
proof -
  let ?es = "local_eff_start h sz i" and ?ee = "local_eff_end h sz i"
  note er = eff_range[OF assms(2-6)]
  have a: "0 \<le> ?es * w" using er assms(1) by (intro mult_nonneg_nonneg) auto
  have b: "0 \<le> (?ee - ?es) * w" using er assms(1) by (intro mult_nonneg_nonneg) auto
  have c: "?ee * w \<le> (h - 1) * w" using er assms(1) by (intro mult_right_mono) auto
  have d: "(h - 1) * w \<le> h * w" using assms(1) by (intro mult_right_mono) auto
  have "int (nat (?es * w * 3) + nat (local_count w h sz i)) = ?ee * w * 3"
    using a b by (simp add: local_count_def algebra_simps)
  also have "\<dots> \<le> h * w * 3" using c d by simp
  also have "\<dots> = int (length s)" using assms(7) by (simp add: algebra_simps)
  finally show ?thesis unfolding of_nat_le_iff .
qed

lemma allgatherv_full:
  assumes "0 \<le> w" "2 \<le> h" "1 \<le> sz" "sz \<le> h" "int (length s) = w * h * 3"
  shows "allgatherv
           (map (\<lambda>rank. send_block w h sz rank (local_next alpha w h sz rank s)) [0..sz - 1])
           (recvcounts w h sz) (displs w h sz) s
         = full_sweep alpha w h s"
proof -
  let ?blk = "\<lambda>rank. send_block w h sz rank (local_next alpha w h sz rank s)"
  let ?cnt = "\<lambda>i. (eff_end h sz i - eff_start h sz i) * w * 3"
  let ?dsp = "\<lambda>i. eff_start h sz i * w * 3"
  let ?items = "map (\<lambda>i. (?blk i, ?cnt i, ?dsp i)) [0..sz - 1]"
  let ?t = "\<lambda>j. full_sweep alpha w h s ! j"
  have unf: "allgatherv (map ?blk [0..sz - 1]) (recvcounts w h sz) (displs w h sz) s
               = fold recv_block ?items s"
    by (simp add: allgatherv_def recvcounts_def displs_def zip3_map)
  have cnt: "?cnt i = local_count w h sz i" for i by (simp add: table_agrees local_count_def)
  have dsp: "?dsp i = local_eff_start h sz i * w * 3" for i by (simp add: table_agrees)
  have prem: "\<forall>(block, cnt, displ)\<in>set ?items.
             nat displ + nat cnt \<le> length s \<and> nat cnt \<le> length block
             \<and> (\<forall>j. nat displ \<le> j \<and> j < nat displ + nat cnt \<longrightarrow> block ! (j - nat displ) = ?t j)"
  proof (clarsimp simp only: set_map set_upto image_iff atLeastAtMost_iff prod.case Pair_inject
      simp_thms cnt dsp)
    fix i :: int assume i: "0 \<le> i" "i \<le> sz - 1"
    then have i': "i < sz" by simp
    let ?es = "local_eff_start h sz i" and ?ee = "local_eff_end h sz i"
    note er = eff_range[OF assms(2-4) i(1) i']
    have fit: "nat (?es * w * 3) + nat (local_count w h sz i) \<le> length s"
      by (rule slice_fits[OF assms(1-4) i(1) i' assms(5)])
    have lb: "length (?blk i) = nat (local_count w h sz i)"
      using fit by (simp add: send_block_def)
    have nth: "?blk i ! (j - nat (?es * w * 3)) = ?t j"
      if j: "nat (?es * w * 3) \<le> j" "j < nat (?es * w * 3) + nat (local_count w h sz i)" for j
    proof -
      have jl: "j < length s" using j fit by linarith
      have "?blk i ! (j - nat (?es * w * 3)) = local_next alpha w h sz i s ! j"
        using j fit by (simp add: send_block_def)
      moreover have "?es * w * 3 \<le> int j \<and> int j < ?ee * w * 3"
        using j slice_rows[of ?es ?ee w j] er assms(1) by (simp add: local_count_def)
      ultimately show ?thesis
        using local_vs_full[OF assms(2-4) i(1) i' jl, of w alpha] by simp
    qed
    show "nat (?es * w * 3) + nat (local_count w h sz i) \<le> length s
          \<and> nat (local_count w h sz i) \<le> length (?blk i)
          \<and> (\<forall>j. nat (?es * w * 3) \<le> j \<and> j < nat (?es * w * 3) + nat (local_count w h sz i)
                 \<longrightarrow> ?blk i ! (j - nat (?es * w * 3)) = ?t j)"
      using fit lb nth by simp
  qed
  note fr = fold_recv_block[OF prem]
  show ?thesis
  proof (rule nth_equalityI)
    show "length (allgatherv (map ?blk [0..sz - 1]) (recvcounts w h sz) (displs w h sz) s)
            = length (full_sweep alpha w h s)"
      using fr by (simp add: unf)
  next
    fix j assume "j < length (allgatherv (map ?blk [0..sz - 1]) (recvcounts w h sz) (displs w h sz) s)"
    then have jl: "j < length s" using fr by (simp add: unf)
    show "allgatherv (map ?blk [0..sz - 1]) (recvcounts w h sz) (displs w h sz) s ! j
            = full_sweep alpha w h s ! j"
    proof (cases "\<exists>item\<in>set ?items. in_block item j")
      case True
      with fr jl show ?thesis by (simp add: unf)
    next
      case False
      have "\<forall>i. 0 \<le> i \<and> i < sz \<longrightarrow>
           \<not> (local_eff_start h sz i * w * 3 \<le> int j \<and> int j < local_eff_end h sz i * w * 3)"
      proof (intro allI impI)
        fix i :: int assume i: "0 \<le> i \<and> i < sz"
        then have "i \<in> set [0..sz - 1]" by simp
        then have "(?blk i, ?cnt i, ?dsp i) \<in> set ?items"
          unfolding set_map by (intro image_eqI[where x = i]) simp_all
        with False have "\<not> in_block (?blk i, ?cnt i, ?dsp i) j" by blast
        then have nb: "\<not> (nat (local_eff_start h sz i * w * 3) \<le> j
                     \<and> j < nat (local_eff_start h sz i * w * 3)
                           + nat ((local_eff_end h sz i - local_eff_start h sz i) * w * 3))"
          by (simp add: in_block_def cnt dsp local_count_def)
        note er = eff_range[OF assms(2-4), of i]
        have sr: "(nat (local_eff_start h sz i * w * 3) \<le> j
                     \<and> j < nat (local_eff_start h sz i * w * 3)
                           + nat ((local_eff_end h sz i - local_eff_start h sz i) * w * 3))
                  = (local_eff_start h sz i * w * 3 \<le> int j
                              \<and> int j < local_eff_end h sz i * w * 3)"
          using er i assms(1) by (intro slice_rows) auto
        show "\<not> (local_eff_start h sz i * w * 3 \<le> int j
                              \<and> int j < local_eff_end h sz i * w * 3)"
          using nb sr by blast
      qed
      from full_outside[OF assms(2,3) this] have "full_sweep alpha w h s ! j = s ! j" .
      with False fr jl show ?thesis by (simp add: unf)
    qed
  qed
qed

subsection \<open>Runs of the distributed engine\<close>

lemma round_all_replicate:
  assumes "0 \<le> w" "2 \<le> h" "1 \<le> sz" "sz \<le> h" "int (length s) = w * h * 3"
  shows "round_all alpha w h sz (replicate (nat sz) s)
         = Inr (replicate (nat sz) (full_sweep alpha w h s))"
proof -
  have nolocal: "\<not> (\<exists>rank\<in>set [0..sz - 1]. local_count w h sz rank < 0)"
    using counts_nonneg[OF assms(1-4)] by (auto simp: not_less)
  have cnt: "(eff_end h sz i - eff_start h sz i) * w * 3 = local_count w h sz i" for i
    by (simp add: table_agrees local_count_def)
  have norecv: "\<not> (\<exists>cnt\<in>set (recvcounts w h sz). cnt < 0)"
    using counts_nonneg[OF assms(1-4)] by (auto simp: recvcounts_def cnt not_less)
  have blocks: "map (\<lambda>rank. send_block w h sz rank
                  (local_next alpha w h sz rank (replicate (nat sz) s ! nat rank))) [0..sz - 1]
              = map (\<lambda>rank. send_block w h sz rank (local_next alpha w h sz rank s)) [0..sz - 1]"
    by (rule map_cong) auto
  show ?thesis
    unfolding round_all_def Let_def blocks
    using nolocal norecv by (simp add: allgatherv_full[OF assms])
qed

lemma rounds_replicate:
  assumes "0 \<le> w" "2 \<le> h" "1 \<le> sz" "sz \<le> h" "int (length s) = w * h * 3"
  shows "rounds n alpha w h sz (replicate (nat sz) s)
         = Inr (replicate (nat sz) ((full_sweep alpha w h ^^ n) s))"
  using assms(5)
proof (induction n arbitrary: s)
  case 0
  then show ?case by simp
next
  case (Suc n)
  have "int (length (full_sweep alpha w h s)) = w * h * 3" using Suc.prems by simp
  from Suc.IH[OF this] show ?case
    by (simp add: round_all_replicate[OF assms(1-4) Suc.prems] funpow_swap1)
qed

text \<open>
  For a well-formed image with at least two rows and \<open>1 \<le> sz \<le> height\<close>, every rank returns
  the image obtained by sweeping all interior rows \<open>iterations\<close> times.
\<close>

lemma parallel_run:
  assumes "wf_image input" "2 \<le> height input" "1 \<le> sz" "sz \<le> height input"
    "0 \<le> rank" "rank < sz"
  shows "graph_diffusion_rgb_parallel input alpha iterations rank sz
         = Inr ((full_sweep alpha (width input) (height input) ^^ nat iterations) (data input))"
proof -
  have len: "int (length (data input)) = width input * height input * 3" and w: "0 \<le> width input"
    using assms(1) by (simp_all add: wf_image_def)
  then have t: "take (nat (width input * height input * 3)) (data input) = data input"
    by simp
  have r: "nat rank < nat sz" using assms by simp
  show ?thesis
    unfolding graph_diffusion_rgb_parallel_def Let_def t
    using r by (simp add: rounds_replicate[OF w assms(2-4) len])
qed

lemma length_funpow_full_sweep [simp]:
  "length ((full_sweep alpha w h ^^ n) s) = length s"
  by (induction n) auto

text \<open>Offsets that are not the address of an interior cell keep their value.\<close>

lemma border_not_interior:
  assumes "0 \<le> y" "0 \<le> x" "x < w" "0 \<le> c" "c < 3"
    and "y = 0 \<or> y = h - 1 \<or> x = 0 \<or> x = w - 1"
  shows "\<forall>(y', x', c')\<in>set (cells 1 (h - 1) w). nat (idx w y' x' c') \<noteq> nat (idx w y x c)"
proof clarify
  fix y' x' c' assume a: "(y', x', c') \<in> set (cells 1 (h - 1) w)"
    and e: "nat (idx w y' x' c') = nat (idx w y x c)"
  have r: "1 \<le> y'" "y' < h - 1" "1 \<le> x'" "x' \<le> w - 2" "0 \<le> c'" "c' \<le> 2"
    using a by (simp_all add: cells_iff)
  have "0 \<le> idx w y' x' c'" using a by (rule cell_idx_nonneg) simp
  moreover have "0 \<le> y * w" using assms by (intro mult_nonneg_nonneg) auto
  then have "0 \<le> idx w y x c" using assms unfolding idx_def by simp
  ultimately have "idx w y' x' c' = idx w y x c" using e by simp
  from idx_inj[OF this] r assms have "y' = y \<and> x' = x \<and> c' = c" by simp
  with r assms(6) show False by auto
qed

lemma full_sweep_border:
  assumes "0 \<le> y" "0 \<le> x" "x < w" "0 \<le> c" "c < 3"
    and "y = 0 \<or> y = h - 1 \<or> x = 0 \<or> x = w - 1"
  shows "full_sweep alpha w h s ! nat (idx w y x c) = s ! nat (idx w y x c)"
  using sweep_other[OF border_not_interior[OF assms]] by (simp add: full_sweep_def)

lemma funpow_full_sweep_border:
  assumes "0 \<le> y" "0 \<le> x" "x < w" "0 \<le> c" "c < 3"
    and "y = 0 \<or> y = h - 1 \<or> x = 0 \<or> x = w - 1"
  shows "(full_sweep alpha w h ^^ n) s ! nat (idx w y x c) = s ! nat (idx w y x c)"
  by (induction n) (simp_all add: full_sweep_border[OF assms])

text \<open>
  On every rank of a valid group the border pixels of the result are those of the input.
\<close>

lemma parallel_border:
  assumes "wf_image input" "2 \<le> height input" "1 \<le> sz" "sz \<le> height input"
    "0 \<le> rank" "rank < sz"
    and "0 \<le> y" "y < height input" "0 \<le> x" "x < width input" "0 \<le> c" "c < 3"
    and "y = 0 \<or> y = height input - 1 \<or> x = 0 \<or> x = width input - 1"
  shows "\<exists>out. graph_diffusion_rgb_parallel input alpha iterations rank sz = Inr out
           \<and> length out = length (data input)
           \<and> out ! nat (idx (width input) y x c) = data input ! nat (idx (width input) y x c)"
  unfolding parallel_run[OF assms(1-6)]
  using funpow_full_sweep_border[OF assms(7,9-13)] by simp

subsection \<open>The per-pixel update on a flat neighbourhood and with alpha = 0\<close>



lemma to_uchar_center:
  assumes "0 \<le> center" "center \<le> 255"
  shows "to_uchar (min (max (real_of_int center) 0) 255) = word_of_int center"
  using assms by (simp add: to_uchar_def min_def max_def)

lemma smooth_value_flat: "smooth_value center [center, center, center, center] = real_of_int center"
  by (simp add: smooth_value_def gauss_weight_def)

lemma pixel_update_flat:
  assumes "0 \<le> center" "center \<le> 255"
  shows "pixel_update alpha center [center, center, center, center] = word_of_int center"
  unfolding pixel_update_def Let_def smooth_value_flat
  using to_uchar_center[OF assms] by (simp add: threshold_def)

lemma pixel_update_alpha0:
  assumes "0 \<le> center" "center \<le> 255"
  shows "pixel_update 0 center nbs =
           (if \<bar>smooth_value center nbs - real_of_int center\<bar> > threshold
            then to_uchar (min (max (smooth_value center nbs) 0) 255)
            else word_of_int center)"
  unfolding pixel_update_def Let_def
  using to_uchar_center[OF assms] by simp

lemma rd_range: "0 \<le> rd s i" "rd s i \<le> 255"
proof -
  show "0 \<le> rd s i" by (simp add: rd_def)
  have "uint (s ! nat i) < 2 ^ LENGTH(8)" by (rule uint_bounded)
  then show "rd s i \<le> 255" by (simp add: rd_def)
qed

lemma word_of_rd: "word_of_int (rd s i) = s ! nat i"
  by (simp add: rd_def)

lemma stencil_cell_alpha0:
  "stencil_cell 0 w s (y, x, c) =
     (if edge_strength w s (y, x, c) > threshold
      then to_uchar (min (max (cell_smooth w s (y, x, c)) 0) 255)
      else s ! nat (idx w y x c))"
  by (simp add: stencil_cell_def edge_strength_def cell_smooth_def
      pixel_update_alpha0[OF rd_range] word_of_rd)


text \<open>The smooth value is a weighted mean of the neighbours, so it is a value in \<open>[0, 255]\<close>.\<close>

lemma smooth_value_range:
  assumes "0 \<le> n1" "n1 \<le> 255" "0 \<le> n2" "n2 \<le> 255" "0 \<le> n3" "n3 \<le> 255" "0 \<le> n4" "n4 \<le> 255"
  shows "0 \<le> smooth_value center [n1, n2, n3, n4]" "smooth_value center [n1, n2, n3, n4] \<le> 255"
proof -
  define w1 w2 w3 w4 where "w1 = gauss_weight center n1" and "w2 = gauss_weight center n2"
    and "w3 = gauss_weight center n3" and "w4 = gauss_weight center n4"
  have pos: "0 < w1" "0 < w2" "0 < w3" "0 < w4"
    by (simp_all add: w1_def w2_def w3_def w4_def gauss_weight_def Let_def)
  have eq: "smooth_value center [n1, n2, n3, n4] =
              (w1 * real_of_int n1 + w2 * real_of_int n2 + w3 * real_of_int n3 + w4 * real_of_int n4)
              / (w1 + w2 + w3 + w4)"
    by (simp add: smooth_value_def Let_def w1_def w2_def w3_def w4_def)
  have s: "0 < w1 + w2 + w3 + w4" using pos by linarith
  have t: "0 \<le> w1 * real_of_int n1" "0 \<le> w2 * real_of_int n2" "0 \<le> w3 * real_of_int n3"
    "0 \<le> w4 * real_of_int n4"
    using pos assms by (simp_all add: mult_nonneg_nonneg)
  have u: "w1 * real_of_int n1 \<le> w1 * 255" "w2 * real_of_int n2 \<le> w2 * 255"
    "w3 * real_of_int n3 \<le> w3 * 255" "w4 * real_of_int n4 \<le> w4 * 255"
    using pos assms by (simp_all add: mult_left_mono)
  show "0 \<le> smooth_value center [n1, n2, n3, n4]"
    unfolding eq using s t by (intro divide_nonneg_pos) linarith+
  have "w1 * real_of_int n1 + w2 * real_of_int n2 + w3 * real_of_int n3 + w4 * real_of_int n4
          \<le> 255 * (w1 + w2 + w3 + w4)"
    using u by (simp add: algebra_simps)
  then show "smooth_value center [n1, n2, n3, n4] \<le> 255"
    unfolding eq using s by (simp add: pos_divide_le_eq)
qed

lemma cell_smooth_range: "0 \<le> cell_smooth w s (y, x, c)" "cell_smooth w s (y, x, c) \<le> 255"
  by (simp_all add: cell_smooth_def neighbor_indices_def smooth_value_range rd_range)

text \<open>
  With \<open>alpha = 0\<close>: a cell with a margin below the threshold keeps its byte, and a cell with
  a margin above the threshold and to the integers \<open>k\<close> and \<open>k + 1\<close> gets the byte \<open>k\<close>.
\<close>

lemma stencil_cell_alpha0_margin:
  shows "edge_strength w s (y, x, c) \<le> threshold - margin \<Longrightarrow>
           stencil_cell 0 w s (y, x, c) = s ! nat (idx w y x c)"
    and "threshold + margin \<le> edge_strength w s (y, x, c) \<Longrightarrow>
           real_of_int k + margin \<le> cell_smooth w s (y, x, c) \<Longrightarrow>
           cell_smooth w s (y, x, c) \<le> real_of_int k + 1 - margin \<Longrightarrow>
           stencil_cell 0 w s (y, x, c) = word_of_int k"
proof -
  assume "edge_strength w s (y, x, c) \<le> threshold - margin"
  then have "\<not> edge_strength w s (y, x, c) > threshold" by (simp add: margin_def)
  then show "stencil_cell 0 w s (y, x, c) = s ! nat (idx w y x c)"
    by (simp add: stencil_cell_alpha0)
next
  let ?s = "cell_smooth w s (y, x, c)"
  assume e: "threshold + margin \<le> edge_strength w s (y, x, c)"
    and lo: "real_of_int k + margin \<le> ?s" and hi: "?s \<le> real_of_int k + 1 - margin"
  from e have edge: "edge_strength w s (y, x, c) > threshold" by (simp add: margin_def)
  have r: "0 \<le> ?s" "?s \<le> 255" by (rule cell_smooth_range)+
  have c: "min (max ?s 0) 255 = ?s" using r by (simp add: min_def max_def)
  have "real_of_int k \<le> ?s" "?s < real_of_int k + 1" using lo hi by (simp_all add: margin_def)
  then have "\<lfloor>?s\<rfloor> = k" by (simp add: floor_eq_iff)
  then show "stencil_cell 0 w s (y, x, c) = word_of_int k"
    using edge by (simp add: stencil_cell_alpha0 c to_uchar_def)
qed

subsection \<open>Three worked neighbourhoods\<close>

lemma e_upper: "exp (1::real) < 3"
proof -
  have "exp (1/4 :: real) \<le> 1 + 1/4 + (1/4)\<^sup>2" by (rule exp_bound) auto
  then have q: "exp (1/4 :: real) \<le> 21/16" by (simp add: power2_eq_square)
  have "exp (1::real) = exp (of_nat 4 * (1/4))" by simp
  also have "\<dots> = exp (1/4) ^ 4" by (rule exp_of_nat_mult)
  also have "\<dots> \<le> (21/16) ^ 4" using q by (intro power_mono) auto
  also have "\<dots> < (3::real)" by (simp add: eval_nat_numeral)
  finally show ?thesis .
qed

lemma e_lower: "27/11 < exp (1::real)"
proof -
  have "(1 + 1 / of_nat 5) ^ 5 \<le> exp (1::real)"
    by (rule exp_ge_one_plus_x_over_n_power_n) auto
  moreover have "(27/11 :: real) < (1 + 1 / of_nat 5) ^ 5" by (simp add: eval_nat_numeral)
  ultimately show ?thesis by linarith
qed

lemma e_upper_297: "exp (1::real) < 297 / 100"
proof -
  have "exp (1/4 :: real) \<le> 1 + 1/4 + (1/4)\<^sup>2" by (rule exp_bound) auto
  then have q: "exp (1/4 :: real) \<le> 21/16" by (simp add: power2_eq_square)
  have "exp (1::real) = exp (of_nat 4 * (1/4))" by simp
  also have "\<dots> = exp (1/4) ^ 4" by (rule exp_of_nat_mult)
  also have "\<dots> \<le> (21/16) ^ 4" using q by (intro power_mono) auto
  also have "\<dots> < (297 / 100 :: real)" by (simp add: eval_nat_numeral)
  finally show ?thesis .
qed

lemma e_lower_248: "248 / 100 < exp (1::real)"
proof -
  have "(1 + 1 / of_nat 5) ^ 5 \<le> exp (1::real)"
    by (rule exp_ge_one_plus_x_over_n_power_n) auto
  moreover have "(248 / 100 :: real) < (1 + 1 / of_nat 5) ^ 5" by (simp add: eval_nat_numeral)
  ultimately show ?thesis by linarith
qed

lemma w10_w30: "exp (- (1/8) :: real) = exp 1 * exp (- (9/8))"
proof -
  have "exp 1 * exp (- (9/8) :: real) = exp (1 + - (9/8))" by (rule exp_add[symmetric])
  then show ?thesis by simp
qed

lemma smooth_Q: "smooth_value 90 [100, 120, 120, 120] = (100 * exp 1 + 360) / (exp 1 + 3)"
proof -
  define a :: real where "a = exp (- (9/8))"
  have a: "0 < a" by (simp add: a_def)
  have "smooth_value 90 [100, 120, 120, 120]
          = (exp 1 * a * 100 + a * 120 + a * 120 + a * 120) / (exp 1 * a + a + a + a)"
    by (simp add: smooth_value_def gauss_weight_def sigma_def w10_w30 a_def Let_def algebra_simps)
  also have "\<dots> = (a * (100 * exp 1 + 360)) / (a * (exp 1 + 3))" by (simp add: algebra_simps)
  also have "\<dots> = (100 * exp 1 + 360) / (exp 1 + 3)" using a by simp
  finally show ?thesis .
qed


lemma smooth_P1: "smooth_value 100 [130, 90, 130, 130] = (390 + 90 * exp 1) / (3 + exp 1)"
proof -
  define a :: real where "a = exp (- (9/8))"
  have a: "0 < a" by (simp add: a_def)
  have "smooth_value 100 [130, 90, 130, 130]
          = (a * 130 + exp 1 * a * 90 + a * 130 + a * 130) / (a + exp 1 * a + a + a)"
    by (simp add: smooth_value_def gauss_weight_def sigma_def w10_w30 a_def Let_def algebra_simps)
  also have "\<dots> = (a * (390 + 90 * exp 1)) / (a * (3 + exp 1))" by (simp add: algebra_simps)
  also have "\<dots> = (390 + 90 * exp 1) / (3 + exp 1)" using a by simp
  finally show ?thesis .
qed

lemma smooth_P2: "smooth_value 100 [130, 110, 130, 130] = (390 + 110 * exp 1) / (3 + exp 1)"
proof -
  define a :: real where "a = exp (- (9/8))"
  have a: "0 < a" by (simp add: a_def)
  have "smooth_value 100 [130, 110, 130, 130]
          = (a * 130 + exp 1 * a * 110 + a * 130 + a * 130) / (a + exp 1 * a + a + a)"
    by (simp add: smooth_value_def gauss_weight_def sigma_def w10_w30 a_def Let_def algebra_simps)
  also have "\<dots> = (a * (390 + 110 * exp 1)) / (a * (3 + exp 1))" by (simp add: algebra_simps)
  also have "\<dots> = (390 + 110 * exp 1) / (3 + exp 1)" using a by simp
  finally show ?thesis .
qed

lemma strength_P1: "\<bar>smooth_value 100 [130, 90, 130, 130] - 100\<bar> \<le> 20"
proof -
  define E :: real where "E = exp 1"
  have E: "0 < E" "1 \<le> E" using e_lower by (simp_all add: E_def)
  have "(390 + 90 * E) / (3 + E) - 100 = (90 - 10 * E) / (3 + E)"
    using E by (simp add: field_simps)
  moreover have "(90 - 10 * E) / (3 + E) \<le> 20" using E by (simp add: field_simps)
  moreover have "- 20 \<le> (90 - 10 * E) / (3 + E)" using E by (simp add: field_simps)
  ultimately show ?thesis unfolding smooth_P1 E_def[symmetric] by linarith
qed

lemma range_Q:
  "20 < smooth_value 90 [100, 120, 120, 120] - 90"
  "110 \<le> smooth_value 90 [100, 120, 120, 120]"
  "smooth_value 90 [100, 120, 120, 120] < 111"
proof -
  define E :: real where "E = exp 1"
  have E: "0 < E" "E < 3" "27 / 11 < E" using e_upper e_lower by (simp_all add: E_def)
  show "20 < smooth_value 90 [100, 120, 120, 120] - 90"
    unfolding smooth_Q E_def[symmetric] using E by (simp add: field_simps)
  show "110 \<le> smooth_value 90 [100, 120, 120, 120]"
    unfolding smooth_Q E_def[symmetric] using E by (simp add: field_simps)
  show "smooth_value 90 [100, 120, 120, 120] < 111"
    unfolding smooth_Q E_def[symmetric] using E by (simp add: field_simps)
qed

lemma range_P2:
  "20 < smooth_value 100 [130, 110, 130, 130] - 100"
  "120 \<le> smooth_value 100 [130, 110, 130, 130]"
  "smooth_value 100 [130, 110, 130, 130] < 121"
proof -
  define E :: real where "E = exp 1"
  have E: "0 < E" "E < 3" "27 / 11 < E" using e_upper e_lower by (simp_all add: E_def)
  show "20 < smooth_value 100 [130, 110, 130, 130] - 100"
    unfolding smooth_P2 E_def[symmetric] using E by (simp add: field_simps)
  show "120 \<le> smooth_value 100 [130, 110, 130, 130]"
    unfolding smooth_P2 E_def[symmetric] using E by (simp add: field_simps)
  show "smooth_value 100 [130, 110, 130, 130] < 121"
    unfolding smooth_P2 E_def[symmetric] using E by (simp add: field_simps)
qed

lemma to_uchar_floor:
  assumes "real_of_int k \<le> r" "r < real_of_int k + 1" "0 \<le> k" "k \<le> 254"
  shows "to_uchar (min (max r 0) 255) = word_of_int k"
proof -
  have "min (max r 0) 255 = r" using assms by (simp add: min_def max_def)
  moreover have "\<lfloor>r\<rfloor> = k" using assms by (simp add: floor_eq_iff)
  ultimately show ?thesis by (simp add: to_uchar_def)
qed

lemma kernel_P1: "pixel_update 0 100 [130, 90, 130, 130] = 100"
  using strength_P1 by (simp add: pixel_update_alpha0 threshold_def)

lemma kernel_Q: "pixel_update 0 90 [100, 120, 120, 120] = 110"
  using range_Q to_uchar_floor[of 110 "smooth_value 90 [100, 120, 120, 120]"]
  by (simp add: pixel_update_alpha0 threshold_def)

lemma kernel_P2: "pixel_update 0 100 [130, 110, 130, 130] = 120"
  using range_P2 to_uchar_floor[of 120 "smooth_value 100 [130, 110, 130, 130]"]
  by (simp add: pixel_update_alpha0 threshold_def)


text \<open>The same two neighbourhoods keep the distance \<open>margin\<close> from the threshold and the integers.\<close>

lemma margin_P1: "\<bar>smooth_value 100 [130, 90, 130, 130] - 100\<bar> \<le> threshold - margin"
proof -
  define E :: real where "E = exp 1"
  have E: "0 < E" "248 / 100 < E" using e_lower_248 by (simp_all add: E_def)
  have "(390 + 90 * E) / (3 + E) - 100 = (90 - 10 * E) / (3 + E)"
    using E by (simp add: field_simps)
  moreover have "(90 - 10 * E) / (3 + E) \<le> 1999 / 100" using E by (simp add: field_simps)
  moreover have "- (1999 / 100) \<le> (90 - 10 * E) / (3 + E)" using E by (simp add: field_simps)
  ultimately show ?thesis
    unfolding smooth_P1 E_def[symmetric] threshold_def margin_def by linarith
qed

lemma margin_P2:
  "threshold + margin \<le> \<bar>smooth_value 100 [130, 110, 130, 130] - 100\<bar>"
  "120 + margin \<le> smooth_value 100 [130, 110, 130, 130]"
  "smooth_value 100 [130, 110, 130, 130] \<le> 120 + 1 - margin"
proof -
  define E :: real where "E = exp 1"
  have E: "0 < E" "E < 297 / 100" "248 / 100 < E"
    using e_upper_297 e_lower_248 by (simp_all add: E_def)
  show lo: "120 + margin \<le> smooth_value 100 [130, 110, 130, 130]"
    unfolding smooth_P2 E_def[symmetric] margin_def using E by (simp add: field_simps)
  show "smooth_value 100 [130, 110, 130, 130] \<le> 120 + 1 - margin"
    unfolding smooth_P2 E_def[symmetric] margin_def using E by (simp add: field_simps)
  from lo show "threshold + margin \<le> \<bar>smooth_value 100 [130, 110, 130, 130] - 100\<bar>"
    by (simp add: threshold_def margin_def)
qed

subsection \<open>Flat images\<close>



lemma rd_replicate: "0 \<le> i \<Longrightarrow> i < int n \<Longrightarrow> rd (replicate n v) i = uint v"
  by (simp add: rd_def)

lemma stencil_cell_flat:
  assumes "int n = w * h * 3" "1 \<le> y" "y \<le> h - 2" "1 \<le> x" "x \<le> w - 2" "0 \<le> c" "c < 3"
  shows "stencil_cell alpha w (replicate n v) (y, x, c) = v"
proof -
  from idx_bounds[OF assms(2-7)] assms(1)
  have b: "\<forall>i\<in>set (idx w y x c # neighbor_indices w y x c). 0 \<le> i \<and> i < int n" by simp
  then have c: "rd (replicate n v) (idx w y x c) = uint v" by (simp add: rd_replicate)
  from b have "\<forall>i\<in>set (neighbor_indices w y x c). rd (replicate n v) i = uint v"
    by (simp add: rd_replicate)
  then have "map (rd (replicate n v)) (neighbor_indices w y x c) = [uint v, uint v, uint v, uint v]"
    by (simp add: neighbor_indices_def)
  moreover have "0 \<le> uint v" "uint v \<le> 255"
    using rd_range[of "[v]" 0] by (simp_all add: rd_def)
  then have "pixel_update alpha (uint v) [uint v, uint v, uint v, uint v] = word_of_int (uint v)"
    by (rule pixel_update_flat)
  ultimately show ?thesis
    using c by (simp add: stencil_cell_def)
qed

lemma full_sweep_flat:
  assumes "int n = w * h * 3"
  shows "full_sweep alpha w h (replicate n v) = replicate n v"
proof (rule nth_equalityI)
  show "length (full_sweep alpha w h (replicate n v)) = length (replicate n v)" by simp
next
  fix j assume "j < length (full_sweep alpha w h (replicate n v))"
  then have j: "j < n" by simp
  show "full_sweep alpha w h (replicate n v) ! j = replicate n v ! j"
  proof (cases "\<exists>a\<in>set (cells 1 (h - 1) w). nat (case a of (y, x, c) \<Rightarrow> idx w y x c) = j")
    case True
    then obtain y x c where a: "(y, x, c) \<in> set (cells 1 (h - 1) w)" and e: "nat (idx w y x c) = j"
      by auto
    have r: "1 \<le> y" "y \<le> h - 2" "1 \<le> x" "x \<le> w - 2" "0 \<le> c" "c < 3"
      using a by (simp_all add: cells_iff)
    have "sweep alpha w (replicate n v) (cells 1 (h - 1) w) (replicate n v)
                     ! nat (case (y, x, c) of (y, x, c) \<Rightarrow> idx w y x c)
            = stencil_cell alpha w (replicate n v) (y, x, c)"
      using j e by (intro sweep_hit[OF a, of 1 "h - 1"]) auto
    then show ?thesis
      using j by (simp add: full_sweep_def e stencil_cell_flat[OF assms r])
  next
    case False
    then have "\<forall>(y, x, c)\<in>set (cells 1 (h - 1) w). nat (idx w y x c) \<noteq> j" by auto
    from sweep_other[OF this] show ?thesis by (simp add: full_sweep_def)
  qed
qed

lemma funpow_full_sweep_flat:
  assumes "int n = w * h * 3"
  shows "(full_sweep alpha w h ^^ k) (replicate n v) = replicate n v"
  by (induction k) (simp_all add: full_sweep_flat[OF assms])

lemma wf_gray_image: "wf_image gray_image"
  by (simp add: wf_image_def gray_image_def)

lemma gray_run:
  assumes "1 \<le> sz" "sz \<le> 4" "0 \<le> rank" "rank < sz"
  shows "graph_diffusion_rgb_parallel gray_image alpha iterations rank sz = Inr (data gray_image)"
proof -
  have "(full_sweep alpha (width gray_image) (height gray_image) ^^ nat iterations)
          (data gray_image) = data gray_image"
    unfolding gray_image_def by (simp add: funpow_full_sweep_flat del: funpow.simps)
  then show ?thesis
    using parallel_run[OF wf_gray_image, of sz rank alpha iterations] assms
    by (simp add: gray_image_def)
qed

text \<open>
  C7. The 4x4 image with every pixel \<open>(128, 128, 128)\<close>, run with \<open>alpha = 0.5\<close> and
  3 iterations on 1, 2 or 4 workers, comes back unchanged on every rank; with all four
  neighbours equal to the centre the update returns the centre value.
\<close>

theorem flat_gray_fixed_point:
  "graph_diffusion_rgb_parallel gray_image (1/2) 3 0 1 = Inr (data gray_image)
   \<and> graph_diffusion_rgb_parallel gray_image (1/2) 3 0 2 = Inr (data gray_image)
   \<and> graph_diffusion_rgb_parallel gray_image (1/2) 3 1 2 = Inr (data gray_image)
   \<and> graph_diffusion_rgb_parallel gray_image (1/2) 3 0 4 = Inr (data gray_image)
   \<and> graph_diffusion_rgb_parallel gray_image (1/2) 3 1 4 = Inr (data gray_image)
   \<and> graph_diffusion_rgb_parallel gray_image (1/2) 3 2 4 = Inr (data gray_image)
   \<and> graph_diffusion_rgb_parallel gray_image (1/2) 3 3 4 = Inr (data gray_image)
   \<and> pixel_update (1/2) 128 [128, 128, 128, 128] = 128"
proof -
  note r = gray_run[where alpha = "1/2" and iterations = 3]
  have k: "pixel_update (1/2) 128 [128, 128, 128, 128] = 128"
    using pixel_update_flat[of 128 "1/2"] by simp
  show ?thesis using r[of 1 0] r[of 2 0] r[of 2 1] r[of 4 0] r[of 4 1] r[of 4 2] r[of 4 3] k
    by simp
qed

subsection \<open>Two rounds on the edge image\<close>

lemma kernel_Q2: "pixel_update 0 110 [100, 120, 120, 120] = 110"
proof -
  have "smooth_value 110 [100, 120, 120, 120] = 115"
    by (simp add: smooth_value_def gauss_weight_def sigma_def Let_def)
  then show ?thesis by (simp add: pixel_update_alpha0 threshold_def)
qed

lemma cells_3x4: "cells 1 3 3 = [(1, 1, 0), (1, 1, 1), (1, 1, 2), (2, 1, 0), (2, 1, 1), (2, 1, 2)]"
  by (simp add: cells_def upto_rec1)

lemma edge_sweep1:
  "full_sweep 0 3 4 (data edge_image) =
     [0, 0, 0,       130, 130, 130,  0, 0, 0,
      130, 130, 130, 100, 100, 100,  130, 130, 130,
      120, 120, 120, 110, 110, 110,  120, 120, 120,
      0, 0, 0,       120, 120, 120,  0, 0, 0]"
  by (simp add: full_sweep_def sweep_def cells_3x4 write_cell_def stencil_cell_def idx_def
      neighbor_indices_def rd_def edge_image_def kernel_P1 kernel_Q)

lemma edge_sweep2:
  "full_sweep 0 3 4
     [0, 0, 0,       130, 130, 130,  0, 0, 0,
      130, 130, 130, 100, 100, 100,  130, 130, 130,
      120, 120, 120, 110, 110, 110,  120, 120, 120,
      0, 0, 0,       120, 120, 120,  0, 0, 0] =
     [0, 0, 0,       130, 130, 130,  0, 0, 0,
      130, 130, 130, 120, 120, 120,  130, 130, 130,
      120, 120, 120, 110, 110, 110,  120, 120, 120,
      0, 0, 0,       120, 120, 120,  0, 0, 0]"
  by (simp add: full_sweep_def sweep_def cells_3x4 write_cell_def stencil_cell_def idx_def
      neighbor_indices_def rd_def kernel_P2 kernel_Q2)

lemma wf_edge_image: "wf_image edge_image"
  by (simp add: wf_image_def edge_image_def)

lemma edge_image_dims [simp]: "width edge_image = 3" "height edge_image = 4"
  by (simp_all add: edge_image_def)

lemma edge_parallel_two_rounds:
  "graph_diffusion_rgb_parallel edge_image 0 2 0 1 = Inr
     [0, 0, 0,       130, 130, 130,  0, 0, 0,
      130, 130, 130, 120, 120, 120,  130, 130, 130,
      120, 120, 120, 110, 110, 110,  120, 120, 120,
      0, 0, 0,       120, 120, 120,  0, 0, 0]"
proof -
  have "(full_sweep 0 3 4 ^^ 2) (data edge_image)
          = full_sweep 0 3 4 (full_sweep 0 3 4 (data edge_image))"
    by (simp add: eval_nat_numeral)
  then show ?thesis
    using parallel_run[OF wf_edge_image, of 1 0 0 2]
    by (simp add: edge_sweep1 edge_sweep2)
qed

lemma edge_strength_P: "edge_strength 3 (data edge_image) (1, 1, 0) \<le> threshold"
  using strength_P1
  by (simp add: edge_strength_def cell_smooth_def idx_def neighbor_indices_def rd_def
      edge_image_def threshold_def)

text \<open>
  C6, the claim as stated fails. In \<open>edge_image\<close> the cell \<open>(1, 1)\<close>, channel 0, at offset 12,
  has edge strength at most 20 in the input. With \<open>alpha = 0\<close> and 2 iterations the first round
  leaves it at 100 and replaces its neighbour \<open>(2, 1)\<close> (an edge cell, 90) by 110; in the second
  round the cell has become an edge cell and is replaced by 120. So a cell that is non-edge in
  the input is not left unchanged by the run.
\<close>

theorem alpha0_nonedge_changed_by_run:
  "edge_strength 3 (data edge_image) (1, 1, 0) \<le> threshold
   \<and> nat (idx 3 1 1 0) = 12
   \<and> data edge_image ! 12 = 100
   \<and> graph_diffusion_rgb_parallel edge_image 0 2 0 1 = Inr
     [0, 0, 0,       130, 130, 130,  0, 0, 0,
      130, 130, 130, 120, 120, 120,  130, 130, 130,
      120, 120, 120, 110, 110, 110,  120, 120, 120,
      0, 0, 0,       120, 120, 120,  0, 0, 0]"
  using edge_strength_P edge_parallel_two_rounds
  by (simp add: idx_def edge_image_def)

lemma full_sweep_interior:
  assumes "1 \<le> y" "y \<le> h - 2" "1 \<le> x" "x \<le> w - 2" "0 \<le> c" "c \<le> 2"
    and "int (length s) = w * h * 3"
  shows "full_sweep alpha w h s ! nat (idx w y x c) = stencil_cell alpha w s (y, x, c)"
proof -
  have a: "(y, x, c) \<in> set (cells 1 (h - 1) w)" using assms by (simp add: cells_iff)
  have "\<forall>i\<in>set (idx w y x c # neighbor_indices w y x c). 0 \<le> i \<and> i < w * h * 3"
    using assms by (intro idx_bounds) auto
  then have "0 \<le> idx w y x c" "idx w y x c < int (length s)" using assms(7) by simp_all
  then have "nat (idx w y x c) < length s" by linarith
  then have "sweep alpha w s (cells 1 (h - 1) w) s
                     ! nat (case (y, x, c) of (y, x, c) \<Rightarrow> idx w y x c)
            = stencil_cell alpha w s (y, x, c)"
    by (intro sweep_hit[OF a, of 1 "h - 1"]) auto
  then show ?thesis by (simp add: full_sweep_def)
qed

lemma wf_edge_round1: "wf_image edge_round1"
  by (simp add: wf_image_def edge_round1_def)

lemma edge_parallel_one_round:
  "graph_diffusion_rgb_parallel edge_image 0 1 0 1 = Inr (data edge_round1)"
  using parallel_run[OF wf_edge_image, of 1 0 0 1] by (simp add: edge_sweep1 edge_round1_def)

lemma edge_round1_one_round:
  "graph_diffusion_rgb_parallel edge_round1 0 1 0 1 = Inr
     [0, 0, 0,       130, 130, 130,  0, 0, 0,
      130, 130, 130, 120, 120, 120,  130, 130, 130,
      120, 120, 120, 110, 110, 110,  120, 120, 120,
      0, 0, 0,       120, 120, 120,  0, 0, 0]"
  using parallel_run[OF wf_edge_round1, of 1 0 0 1] by (simp add: edge_sweep2 edge_round1_def)

lemma edge_margin_input:
  "edge_strength 3 (data edge_image) (1, 1, 0) \<le> threshold - margin"
  using margin_P1
  by (simp add: edge_strength_def cell_smooth_def idx_def neighbor_indices_def rd_def
      edge_image_def)

lemma edge_margin_round1:
  "threshold + margin \<le> edge_strength 3 (data edge_round1) (1, 1, 0)"
  "120 + margin \<le> cell_smooth 3 (data edge_round1) (1, 1, 0)"
  "cell_smooth 3 (data edge_round1) (1, 1, 0) \<le> 120 + 1 - margin"
  using margin_P2
  by (simp_all add: edge_strength_def cell_smooth_def idx_def neighbor_indices_def rd_def
      edge_round1_def)

text \<open>
  C6, amended. With \<open>alpha = 0\<close> the rule holds round by round, relative to the snapshot at
  the start of the round and not to the input of the run. Let \<open>input\<close> be any well-formed
  snapshot that all ranks hold when a round starts. The round (\<open>round_all\<close>, which is also the
  run of one iteration from that snapshot) returns on every rank an image \<open>after\<close> in which
  every interior cell whose edge strength in the snapshot is at most \<open>20 - margin\<close> has kept
  its byte, and every interior cell whose edge strength in the snapshot is at least
  \<open>20 + margin\<close> holds its smooth value with the fraction dropped: the byte \<open>k\<close>, when the smooth
  value lies in \<open>[k + margin, k + 1 - margin]\<close>. With the input image of a run as snapshot this
  is the claim for one iteration. The rule is stated for cells with the distance
  \<open>margin = 1/100\<close> from the threshold and from the integers: there the branch and the byte
  computed in binary32 are those of the real value.
\<close>

theorem alpha0_round_rule:
  assumes "wf_image input" "2 \<le> height input" "1 \<le> sz" "sz \<le> height input"
    "0 \<le> rank" "rank < sz"
    and "1 \<le> y" "y \<le> height input - 2" "1 \<le> x" "x \<le> width input - 2" "0 \<le> c" "c \<le> 2"
  shows "\<exists>after.
           round_all 0 (width input) (height input) sz (replicate (nat sz) (data input))
             = Inr (replicate (nat sz) after)
         \<and> graph_diffusion_rgb_parallel input 0 1 rank sz = Inr after
         \<and> (edge_strength (width input) (data input) (y, x, c) \<le> threshold - margin \<longrightarrow>
              after ! nat (idx (width input) y x c) = data input ! nat (idx (width input) y x c))
         \<and> (threshold + margin \<le> edge_strength (width input) (data input) (y, x, c)
              \<and> real_of_int k + margin \<le> cell_smooth (width input) (data input) (y, x, c)
              \<and> cell_smooth (width input) (data input) (y, x, c) \<le> real_of_int k + 1 - margin \<longrightarrow>
              after ! nat (idx (width input) y x c) = word_of_int k)"
proof -
  let ?w = "width input" and ?h = "height input"
  let ?after = "full_sweep 0 ?w ?h (data input)"
  have len: "int (length (data input)) = ?w * ?h * 3" and w: "0 \<le> ?w"
    using assms(1) by (simp_all add: wf_image_def)
  have r: "round_all 0 ?w ?h sz (replicate (nat sz) (data input)) = Inr (replicate (nat sz) ?after)"
    by (rule round_all_replicate[OF w assms(2-4) len])
  have g: "graph_diffusion_rgb_parallel input 0 1 rank sz = Inr ?after"
    using parallel_run[OF assms(1-6), of 0 1] by simp
  have st: "?after ! nat (idx ?w y x c) = stencil_cell 0 ?w (data input) (y, x, c)"
    by (rule full_sweep_interior[OF assms(7-12) len])
  show ?thesis
    using r g stencil_cell_alpha0_margin(1)[of ?w "data input" y x c]
      stencil_cell_alpha0_margin(2)[of ?w "data input" y x c k]
    by (simp add: st)
qed

theorem alpha0_round_rule_witness:
  "edge_strength 3 (data edge_image) (1, 1, 0) \<le> threshold - margin
   \<and> graph_diffusion_rgb_parallel edge_image 0 1 0 1 = Inr (data edge_round1)
   \<and> data edge_round1 ! 12 = data edge_image ! 12
   \<and> threshold + margin \<le> edge_strength 3 (data edge_round1) (1, 1, 0)
   \<and> 120 + margin \<le> cell_smooth 3 (data edge_round1) (1, 1, 0)
   \<and> cell_smooth 3 (data edge_round1) (1, 1, 0) \<le> 120 + 1 - margin
   \<and> graph_diffusion_rgb_parallel edge_round1 0 1 0 1 = Inr
     [0, 0, 0,       130, 130, 130,  0, 0, 0,
      130, 130, 130, 120, 120, 120,  130, 130, 130,
      120, 120, 120, 110, 110, 110,  120, 120, 120,
      0, 0, 0,       120, 120, 120,  0, 0, 0]"
proof -
  have i: "nat (idx 3 1 1 0) = 12" by (simp add: idx_def)
  have d: "width edge_round1 = 3" "height edge_round1 = 4" by (simp_all add: edge_round1_def)
  from alpha0_round_rule[OF wf_edge_image, where sz = 1 and rank = 0
      and y = 1 and x = 1 and c = 0 and k = 100]
  obtain a0 where r0: "graph_diffusion_rgb_parallel edge_image 0 1 0 1 = Inr a0"
    "edge_strength 3 (data edge_image) (1, 1, 0) \<le> threshold - margin
       \<longrightarrow> a0 ! 12 = data edge_image ! 12"
    unfolding edge_image_dims i by auto
  then have a0: "a0 = data edge_round1" using edge_parallel_one_round by simp
  with r0(2) edge_margin_input have keep: "data edge_round1 ! 12 = data edge_image ! 12"
    by simp
  from alpha0_round_rule[OF wf_edge_round1, where sz = 1 and rank = 0
      and y = 1 and x = 1 and c = 0 and k = 120]
  obtain a1 where r1: "graph_diffusion_rgb_parallel edge_round1 0 1 0 1 = Inr a1"
    "threshold + margin \<le> edge_strength 3 (data edge_round1) (1, 1, 0)
       \<and> real_of_int 120 + margin \<le> cell_smooth 3 (data edge_round1) (1, 1, 0)
       \<and> cell_smooth 3 (data edge_round1) (1, 1, 0) \<le> real_of_int 120 + 1 - margin
     \<longrightarrow> a1 ! 12 = word_of_int 120"
    unfolding d i by auto
  with edge_margin_round1 have edge: "a1 ! 12 = 120" by simp
  from r0 r1 keep edge show ?thesis
    using edge_margin_input edge_parallel_one_round edge_margin_round1 edge_round1_one_round
    by simp
qed

subsection \<open>Runs of the single-process engine\<close>

lemma serial_rounds_lengths:
  "length (fst (serial_rounds n alpha w h (A, B))) = (if even n then length A else length B)
   \<and> length (snd (serial_rounds n alpha w h (A, B))) = (if even n then length B else length A)"
  by (induction n arbitrary: A B) auto

lemma serial_rounds_untouched:
  assumes "\<forall>(y, x, c)\<in>set (cells 1 (h - 1) w). nat (idx w y x c) \<noteq> j"
  shows "fst (serial_rounds n alpha w h (A, B)) ! j = (if even n then A ! j else B ! j)
       \<and> snd (serial_rounds n alpha w h (A, B)) ! j = (if even n then B ! j else A ! j)"
proof (induction n arbitrary: A B)
  case 0
  then show ?case by simp
next
  case (Suc n)
  have "sweep alpha w A (cells 1 (h - 1) w) B ! j = B ! j" by (rule sweep_other[OF assms])
  with Suc[of "sweep alpha w A (cells 1 (h - 1) w) B" A] show ?case by simp
qed

lemma smod2_odd:
  assumes "0 < i"
  shows "i smod 2 = 1 \<longleftrightarrow> odd (nat i)"
proof -
  have "i smod 2 = i mod 2" using assms by (simp add: signed_modulo_int_def sgn_if)
  moreover have "odd (nat i) \<longleftrightarrow> odd i" using assms by (simp add: even_nat_iff)
  ultimately show ?thesis by (simp add: odd_iff_mod_2_eq_one)
qed

text \<open>
  Offsets that no interior cell is stored at (all border pixels) come out of the serial
  function with the value the output buffer held on entry.
\<close>

lemma serial_untouched_is_output_buffer:
  assumes "0 < iterations" "int (length (data input)) = width input * height input * 3"
    "length (data output) = length (data input)" "j < length (data input)"
    and "\<forall>(y, x, c)\<in>set (cells 1 (height input - 1) (width input)).
            nat (idx (width input) y x c) \<noteq> j"
  shows "graph_diffusion_rgb input output alpha iterations ! j = data output ! j"
proof -
  let ?w = "width input" and ?h = "height input"
  let ?n = "nat (?w * ?h * 3)"
  have n: "?n = length (data input)" using assms(2) by simp
  let ?r = "serial_rounds (nat iterations) alpha ?w ?h (take ?n (data input), data output)"
  have t: "take ?n (data input) = data input" using n by simp
  note u = serial_rounds_untouched[OF assms(5), of "nat iterations" alpha "data input" "data output"]
  note l = serial_rounds_lengths[of "nat iterations" alpha ?w ?h "data input" "data output"]
  show ?thesis
  proof (cases "odd (nat iterations)")
    case True
    then have "iterations smod 2 = 1" using smod2_odd[OF assms(1)] by simp
    then have "graph_diffusion_rgb input output alpha iterations
                 = take ?n (fst ?r) @ drop ?n (snd ?r)"
      by (simp add: graph_diffusion_rgb_def Let_def split_beta)
    moreover have "j < length (take ?n (fst ?r))" using True l assms(3,4) n t by simp
    ultimately show ?thesis using True u assms(4) n t by (simp add: nth_append)
  next
    case False
    then have "iterations smod 2 \<noteq> 1" using smod2_odd[OF assms(1)] by simp
    then have "graph_diffusion_rgb input output alpha iterations = snd ?r"
      by (simp add: graph_diffusion_rgb_def Let_def split_beta)
    then show ?thesis using False u t by simp
  qed
qed

text \<open>
  C1, the single-process function at a failing input. On \<open>edge_image\<close> with \<open>alpha = 0\<close> and
  2 iterations, and with an output buffer that happens to hold a copy of the input on entry,
  \<open>graph_diffusion_rgb\<close> returns the image after one round (offset 12 holds 100), while
  \<open>graph_diffusion_rgb_parallel\<close> on one worker returns the image after two rounds (offset 12
  holds 120).
\<close>

theorem serial_even_iterations_stale:
  "graph_diffusion_rgb edge_image edge_image 0 2 =
     [0, 0, 0,       130, 130, 130,  0, 0, 0,
      130, 130, 130, 100, 100, 100,  130, 130, 130,
      120, 120, 120, 110, 110, 110,  120, 120, 120,
      0, 0, 0,       120, 120, 120,  0, 0, 0]
   \<and> graph_diffusion_rgb_parallel edge_image 0 2 0 1 = Inr
     [0, 0, 0,       130, 130, 130,  0, 0, 0,
      130, 130, 130, 120, 120, 120,  130, 130, 130,
      120, 120, 120, 110, 110, 110,  120, 120, 120,
      0, 0, 0,       120, 120, 120,  0, 0, 0]"
proof -
  have t: "take (nat (3 * 4 * 3)) (data edge_image) = data edge_image"
    by (simp add: edge_image_def)
  have "snd (serial_rounds (nat 2) 0 3 4 (data edge_image, data edge_image))
          = full_sweep 0 3 4 (data edge_image)"
    by (simp add: eval_nat_numeral full_sweep_def)
  moreover have "(2::int) smod 2 \<noteq> 1" by (simp add: signed_modulo_int_def)
  ultimately have "graph_diffusion_rgb edge_image edge_image 0 2
                     = full_sweep 0 3 4 (data edge_image)"
    unfolding graph_diffusion_rgb_def Let_def edge_image_dims t by (simp add: split_beta)
  then show ?thesis using edge_parallel_two_rounds by (simp add: edge_sweep1)
qed

text \<open>
  C2, the single-process function at a failing input. The flat gray 4x4 image, \<open>alpha = 0.5\<close>,
  one iteration, and an output buffer holding zeros on entry: the corner byte at offset 0 of
  the result is the 0 of the output buffer, not the 128 of the input.
\<close>

theorem serial_border_from_output_buffer:
  "nat (idx 4 0 0 0) = 0
   \<and> graph_diffusion_rgb gray_image \<lparr>width = 4, height = 4, data = replicate 48 0\<rparr> (1/2) 1 ! 0 = 0
   \<and> data gray_image ! 0 = 128"
proof -
  have "\<forall>(y', x', c')\<in>set (cells 1 (4 - 1) 4). nat (idx 4 y' x' c') \<noteq> nat (idx 4 0 0 0)"
    by (rule border_not_interior) auto
  then have "\<forall>(y, x, c)\<in>set (cells 1 (height gray_image - 1) (width gray_image)).
            nat (idx (width gray_image) y x c) \<noteq> 0"
    by (simp add: gray_image_def idx_def)
  then have "graph_diffusion_rgb gray_image \<lparr>width = 4, height = 4, data = replicate 48 0\<rparr> (1/2) 1 ! 0
          = data \<lparr>width = 4, height = 4, data = replicate 48 (0::byte)\<rparr> ! 0"
    by (intro serial_untouched_is_output_buffer) (simp_all add: gray_image_def)
  then show ?thesis by (simp add: gray_image_def idx_def)
qed

subsection \<open>Start-up checks and exit codes\<close>

lemma rounds_error:
  assumes "round_all alpha w h sz curs = Inl e" "0 < n"
  shows "rounds n alpha w h sz curs = Inl e"
  using assms by (cases n) simp_all

lemma last_upto: "i \<le> j \<Longrightarrow> last [i..j] = j"
  by (simp add: upto_rec2)

lemma oversubscribed_table:
  assumes "1 \<le> h" "h < sz"
  shows "local_rows h sz (sz - 1) = 0" "last (recvcounts w h sz) = - (3 * w)"
proof -
  have q: "rows_per_proc h sz = 0" "extra h sz = h"
    using assms by (simp_all add: rows_per_proc_def extra_def sdiv_smod_nonneg)
  show "local_rows h sz (sz - 1) = 0" using assms by (simp add: local_rows_def q)
  have "[0..sz - 1] \<noteq> []" using assms by simp
  then have "last (recvcounts w h sz)
               = (eff_end h sz (sz - 1) - eff_start h sz (sz - 1)) * w * 3"
    using assms by (simp add: recvcounts_def last_map last_upto)
  also have "\<dots> = - (3 * w)"
    using assms by (simp add: eff_end_def eff_start_def proc_end_def proc_start_def proc_rows_def q)
  finally show "last (recvcounts w h sz) = - (3 * w)" .
qed

lemma oversubscribed_round:
  assumes "1 \<le> h" "h < sz" "1 \<le> w"
  shows "round_all alpha w h sz curs = Inl MPI_ERR_COUNT"
proof -
  have "recvcounts w h sz \<noteq> []" using assms by (simp add: recvcounts_def)
  then have "last (recvcounts w h sz) \<in> set (recvcounts w h sz)" by (rule last_in_set)
  moreover have "last (recvcounts w h sz) < 0"
    using oversubscribed_table(2)[OF assms(1,2), of w] assms(3) by simp
  ultimately have "\<exists>cnt\<in>set (recvcounts w h sz). cnt < 0" by blast
  then show ?thesis by (simp add: round_all_def Let_def)
qed

text \<open>
  C8, the claim as stated fails. The 3x2 image \<open>thin_image\<close> on 3 workers, with 5 arguments,
  one iteration and a successful load: no check rejects the run, rank 0 reaches
  \<^verbatim>\<open>graph_diffusion_rgb_parallel\<close>, the table of receive counts is computed and is
  \<open>[0, 0, -9]\<close> (the third rank has no rows), and the run ends in the exchange.
\<close>

theorem oversubscribed_run_reaches_diffusion:
  "main_hybrid 5 (1/2) 1 (Some thin_image) 0 3 =
     ([Bcast_error_flag 0, Bcast_width, Bcast_height, Bcast_data, Diffusion], Abort MPI_ERR_COUNT)
   \<and> recvcounts 3 2 3 = [0, 0, - 9]
   \<and> map (local_rows 2 3) [0, 1, 2] = [1, 1, 0]"
proof -
  have "round_all (1/2) 3 2 3 (replicate (nat 3) (take (nat (3 * 2 * 3)) (data thin_image)))
          = Inl MPI_ERR_COUNT"
    by (rule oversubscribed_round) auto
  then have "graph_diffusion_rgb_parallel thin_image (1/2) 1 0 3 = Inl MPI_ERR_COUNT"
    by (simp add: graph_diffusion_rgb_parallel_def thin_image_def)
  moreover have "recvcounts 3 2 3 = [0, 0, - 9]"
    by (simp add: recvcounts_def eff_end_def eff_start_def proc_end_def proc_start_def
        proc_rows_def rows_per_proc_def extra_def signed_divide_int_def signed_modulo_int_def
        upto_rec1)
  moreover have "map (local_rows 2 3) [0, 1, 2] = [1, 1, 0]"
    by (simp add: local_rows_def rows_per_proc_def extra_def signed_divide_int_def
        signed_modulo_int_def)
  ultimately show ?thesis by (simp add: main_hybrid_def)
qed

text \<open>
  C8, amended. A worker count above the image height is not rejected by any validation:
  \<^verbatim>\<open>main\<close> checks the argument count, the iteration count and the load only. With 5
  arguments, a positive iteration count and a loaded image of height \<open>\<ge> 1\<close> and width \<open>\<ge> 1\<close>,
  every rank performs the broadcasts and calls \<^verbatim>\<open>graph_diffusion_rgb_parallel\<close>; the partition
  gives the last rank zero rows and the receive count \<open>- (3 * width)\<close>, and the run ends with
  the count error of the first exchange instead of a configuration error.
\<close>

theorem oversubscribed_not_rejected:
  assumes "1 \<le> height input" "height input < sz" "1 \<le> width input" "0 < iterations"
  shows "main_hybrid 5 alpha iterations (Some input) rank sz =
           ([Bcast_error_flag 0, Bcast_width, Bcast_height, Bcast_data, Diffusion],
            Abort MPI_ERR_COUNT)
       \<and> local_rows (height input) sz (sz - 1) = 0
       \<and> last (recvcounts (width input) (height input) sz) = - (3 * width input)"
proof -
  have "rounds (nat iterations) alpha (width input) (height input) sz
          (replicate (nat sz) (take (nat (width input * height input * 3)) (data input)))
        = Inl MPI_ERR_COUNT"
    using assms by (intro rounds_error oversubscribed_round) auto
  then have "graph_diffusion_rgb_parallel input alpha iterations rank sz = Inl MPI_ERR_COUNT"
    by (simp add: graph_diffusion_rgb_parallel_def Let_def)
  then show ?thesis
    using assms oversubscribed_table(1)[OF assms(1,2)]
      oversubscribed_table(2)[OF assms(1,2), of "width input"]
    by (simp add: main_hybrid_def)
qed

theorem oversubscribed_not_rejected_witness:
  "main_hybrid 5 (1/2) 7 (Some gray_image) 2 5 =
           ([Bcast_error_flag 0, Bcast_width, Bcast_height, Bcast_data, Diffusion],
            Abort MPI_ERR_COUNT)
       \<and> local_rows 4 5 4 = 0
       \<and> last (recvcounts 4 4 5) = - 12"
  using oversubscribed_not_rejected[where input = gray_image and sz = 5 and iterations = 7
      and alpha = "1/2" and rank = 2]
  by (simp add: gray_image_def)

text \<open>
  C9. A wrong argument count, a non-positive iteration count or a failed load make both
  programs exit with code 1 without reaching the diffusion (in the hybrid program on every
  rank, and without the data broadcast); on a failed load the first and only collective
  of the hybrid program is the broadcast of the error flag, set to 1. With 5 arguments, a
  positive iteration count and a loaded image, the serial program runs the diffusion, writes
  the output and exits 0; so does the hybrid program whenever the diffusion returns, with
  rank 0 writing the output after the diffusion and every rank exiting 0.
\<close>

theorem exit_behaviour:
  shows "(argc \<noteq> 5 \<or> iterations \<le> 0 \<or> loaded = None \<longrightarrow>
            snd (main_serial argc alpha iterations loaded fresh) = Exit 1
          \<and> Diffusion \<notin> set (fst (main_serial argc alpha iterations loaded fresh))
          \<and> snd (main_hybrid argc alpha iterations loaded rank sz) = Exit 1
          \<and> Diffusion \<notin> set (fst (main_hybrid argc alpha iterations loaded rank sz))
          \<and> Bcast_data \<notin> set (fst (main_hybrid argc alpha iterations loaded rank sz)))
       \<and> (argc = 5 \<and> 0 < iterations \<and> loaded = None \<longrightarrow>
            fst (main_hybrid argc alpha iterations loaded rank sz) = [Bcast_error_flag 1, Finalize])
       \<and> (argc = 5 \<and> 0 < iterations \<and> loaded = Some input \<longrightarrow>
            main_serial argc alpha iterations loaded fresh =
              ([Diffusion,
                Write_ppm (graph_diffusion_rgb input
                  \<lparr>width = width input, height = height input, data = fresh\<rparr> alpha iterations)],
               Exit 0))
       \<and> (argc = 5 \<and> 0 < iterations \<and> loaded = Some input
            \<and> graph_diffusion_rgb_parallel input alpha iterations rank sz = Inr out \<longrightarrow>
            main_hybrid argc alpha iterations loaded rank sz =
              ([Bcast_error_flag 0, Bcast_width, Bcast_height, Bcast_data, Diffusion]
                 @ (if rank = 0 then [Write_ppm out] else []) @ [Finalize],
               Exit 0))"
  by (auto simp: main_serial_def main_hybrid_def Let_def)

theorem exit_behaviour_witness:
  "main_hybrid 4 (1/2) 3 (Some gray_image) 1 2 = ([Finalize], Exit 1)
   \<and> main_hybrid 5 (1/2) 0 (Some gray_image) 0 2 = ([Print_iterations_error, Finalize], Exit 1)
   \<and> main_hybrid 5 (1/2) 3 None 1 2 = ([Bcast_error_flag 1, Finalize], Exit 1)
   \<and> main_serial 5 (1/2) 3 None [] = ([], Exit 1)
   \<and> main_hybrid 5 (1/2) 3 (Some gray_image) 0 2 =
        ([Bcast_error_flag 0, Bcast_width, Bcast_height, Bcast_data, Diffusion,
          Write_ppm (data gray_image), Finalize], Exit 0)
   \<and> main_hybrid 5 (1/2) 3 (Some gray_image) 1 2 =
        ([Bcast_error_flag 0, Bcast_width, Bcast_height, Bcast_data, Diffusion, Finalize], Exit 0)"
proof -
  have g: "graph_diffusion_rgb_parallel gray_image (1/2) 3 0 2 = Inr (data gray_image)"
    "graph_diffusion_rgb_parallel gray_image (1/2) 3 1 2 = Inr (data gray_image)"
    by (rule gray_run; simp)+
  show ?thesis
    using exit_behaviour[where argc = 5 and iterations = 3 and loaded = "Some gray_image"
        and alpha = "1/2" and fresh = "[]" and rank = 0 and sz = 2 and input = gray_image
        and out = "data gray_image"]
      exit_behaviour[where argc = 5 and iterations = 3 and loaded = "Some gray_image"
        and alpha = "1/2" and fresh = "[]" and rank = 1 and sz = 2 and input = gray_image
        and out = "data gray_image"]
      exit_behaviour[where argc = 5 and iterations = 3 and loaded = None
        and alpha = "1/2" and fresh = "[]" and rank = 1 and sz = 2 and input = gray_image
        and out = "data gray_image"]
      g
    by (simp add: main_hybrid_def main_serial_def)
qed

end
